theory Spec2Isabelle
  imports Main
begin

section \<open>Data model\<close>

text \<open>
  The four states of a future (state.go, lines 6 to 11), in the order of the \<open>iota\<close>
  enumeration.
\<close>

datatype State = Pending | Running | Fulfilled | Rejected

text \<open>
  Values of the type parameter \<open>T\<close> are modelled as \<open>'v option\<close>: \<open>None\<close> is the \<open>nil\<close> of
  \<open>any\<close>, which the closure built by \<open>Then\<close> returns on failure and which is the zero value of
  every \<open>Future[any]\<close>. An \<open>error\<close> is \<open>'e option\<close>, \<open>None\<close> being the nil error.

  A callback (\<open>func(T)\<close> or \<open>func(error)\<close>) is caller code. The model keeps its identity and
  whether an invocation of it returns; what it does besides is outside the future.
\<close>

datatype cb = Cb (cb_id: nat) (cb_returns: bool)

text \<open>
  The \<open>task\<close> field holds either a computation supplied to \<open>NewFuture\<close> by the caller, given by
  its outcome (\<open>None\<close> when it never returns), or the closure that \<open>Then\<close> builds (lines 40 to
  49) over the parent future and \<open>nextTask\<close>; \<open>nextTask\<close> too may fail to return.
\<close>

datatype ('v, 'e) task =
    Supplied "('v option \<times> 'e option) option"
  | Closure nat "'v option \<Rightarrow> ('v option \<times> 'e option) option"

text \<open>
  The struct \<open>Future[T]\<close> (lines 8 to 19). \<open>mutex\<close> is \<open>True\<close> while the mutex is held across
  steps, \<open>done_ch\<close> is \<open>True\<close> once the channel \<open>done\<close> is closed, \<open>next_fut\<close> is the field
  \<open>next\<close>. Futures live in a store and are referred to by their index.
\<close>

record ('v, 'e) future =
  task :: "('v, 'e) task"
  mutex :: bool
  result :: "'v option"
  err :: "'e option"
  state :: State
  done_ch :: bool
  next_fut :: "nat option"
  onSuccess :: "cb list"
  onFailure :: "cb list"
  started :: bool

text \<open>\<open>NewFuture\<close> (lines 22 to 31); \<open>z\<close> is the zero value of \<open>T\<close>, left in \<open>result\<close>.\<close>

definition NewFuture :: "'v option \<Rightarrow> ('v, 'e) task \<Rightarrow> ('v, 'e) future" where
  "NewFuture z tk =
     \<lparr>task = tk, mutex = False, result = z, err = None, state = Pending, done_ch = False,
      next_fut = None, onSuccess = [], onFailure = [], started = False\<rparr>"

section \<open>Threads\<close>

text \<open>
  \<open>Result\<close> is called by client code or, at line 42, by the closure of a chained future; the
  latter call carries the chained future and its \<open>nextTask\<close>.
\<close>

datatype ('v, 'e) caller =
    Client
  | Link nat "'v option \<Rightarrow> ('v option \<times> 'e option) option"

text \<open>
  A thread is a program point of the source together with its local variables. The regions
  between \<open>Lock\<close> and \<open>Unlock\<close> are single steps; everything else is a step of its own.
\<close>

datatype ('v, 'e) pc =
    Start_enter nat
  | Start_done nat
  | Go_task nat
  | Go_lock nat "'v option" "'e option"
  | Go_fail nat "cb list" "'e option"
  | Go_succ nat "cb list" "'v option"
  | Go_done nat
  | Go_abort nat
  | Panicked nat
  | Hung
  | Result_enter nat "('v, 'e) caller"
  | Result_start nat "('v, 'e) caller"
  | Result_wait nat "('v, 'e) caller"
  | Result_read nat "('v, 'e) caller"
  | Result_done nat "'v option" "'e option"
  | Closure_test nat "'v option \<Rightarrow> ('v option \<times> 'e option) option" "'v option" "'e option"
  | Then_enter nat "'v option \<Rightarrow> ('v option \<times> 'e option) option"
  | Then_link nat nat
  | Then_done nat nat
  | OnSuccess_enter nat cb
  | OnSuccess_done nat cb
  | OnFailure_enter nat cb
  | OnFailure_done nat cb
  | State_enter nat
  | State_done nat State

text \<open>
  The trace records the calls that leave the future: the task (line 71), \<open>nextTask\<close> (line
  48), a callback fired by the completion path (lines 89 and 101) or by a registration
  (part\_001, lines 10 and 24), and the close of \<open>done\<close> (line 106).
\<close>

datatype ('v, 'e) event =
    Invoked_task nat
  | Invoked_next nat "'v option"
  | Fired_failure nat cb "'e option"
  | Fired_success nat cb "'v option"
  | Immediate_failure nat cb "'e option"
  | Immediate_success nat cb "'v option"
  | Closed_done nat

record ('v, 'e) config =
  futs :: "('v, 'e) future list"
  threads :: "('v, 'e) pc list"
  trace :: "('v, 'e) event list"

definition init :: "('v, 'e) config" where
  "init = \<lparr>futs = [], threads = [], trace = []\<rparr>"

definition set_pc :: "nat \<Rightarrow> ('v, 'e) pc \<Rightarrow> ('v, 'e) config \<Rightarrow> ('v, 'e) config" where
  "set_pc t p c = c\<lparr>threads := (threads c)[t := p]\<rparr>"

definition spawn :: "('v, 'e) pc \<Rightarrow> ('v, 'e) config \<Rightarrow> ('v, 'e) config" where
  "spawn p c = c\<lparr>threads := threads c @ [p]\<rparr>"

definition set_fut :: "nat \<Rightarrow> ('v, 'e) future \<Rightarrow> ('v, 'e) config \<Rightarrow> ('v, 'e) config" where
  "set_fut i f c = c\<lparr>futs := (futs c)[i := f]\<rparr>"

definition emit :: "('v, 'e) event \<Rightarrow> ('v, 'e) config \<Rightarrow> ('v, 'e) config" where
  "emit ev c = c\<lparr>trace := trace c @ [ev]\<rparr>"

section \<open>The operations\<close>

text \<open>
  \<open>Start\<close>, lines 61 to 68: the guard and the two assignments, under the mutex. The flag says
  whether line 70 is reached, that is whether the goroutine is spawned.
\<close>

definition Start_locked :: "('v, 'e) future \<Rightarrow> ('v, 'e) future \<times> bool" where
  "Start_locked f =
     (if state f \<noteq> Pending \<or> started f then (f, False)
      else (f\<lparr>started := True, state := Running\<rparr>, True))"

definition Start :: "nat \<Rightarrow> ('v, 'e) pc \<Rightarrow> nat \<Rightarrow> ('v, 'e) config \<Rightarrow> ('v, 'e) config" where
  "Start t ret i c =
     (let f = futs c ! i in
      if mutex f then c
      else case Start_locked f of
        (f', go) \<Rightarrow>
          let c' = set_pc t ret (set_fut i f' c)
          in if go then spawn (Go_task i) c' else c')"

text \<open>
  The goroutine, lines 73 to 97: the defensive check, then the assignment of the outcome and
  the snapshot of the matching callback list, under the mutex.
\<close>

definition complete ::
  "nat \<Rightarrow> 'v option \<Rightarrow> 'e option \<Rightarrow> ('v, 'e) future \<Rightarrow> ('v, 'e) future \<times> ('v, 'e) pc" where
  "complete i res er f =
     (if state f \<noteq> Running then (f, Go_abort i)
      else if er \<noteq> None then (f\<lparr>err := er, state := Rejected\<rparr>, Go_fail i (onFailure f) er)
      else (f\<lparr>result := res, state := Fulfilled\<rparr>, Go_succ i (onSuccess f) res))"

text \<open>Line 106: closing a closed channel panics.\<close>

definition close_done :: "nat \<Rightarrow> nat \<Rightarrow> ('v, 'e) config \<Rightarrow> ('v, 'e) config" where
  "close_done t i c =
     (let f = futs c ! i in
      if done_ch f then set_pc t (Panicked i) c
      else set_pc t (Go_done i) (emit (Closed_done i) (set_fut i (f\<lparr>done_ch := True\<rparr>) c)))"

text \<open>
  \<open>OnSuccess\<close> and \<open>OnFailure\<close> (part\_001): the whole body runs under the mutex, the immediate
  callback included, so a callback that does not return leaves the mutex held.
\<close>

definition OnSuccess :: "nat \<Rightarrow> nat \<Rightarrow> cb \<Rightarrow> ('v, 'e) config \<Rightarrow> ('v, 'e) config" where
  "OnSuccess t i k c =
     (let f = futs c ! i in
      if mutex f then c
      else if state f = Fulfilled then
        (let c' = emit (Immediate_success i k (result f)) c
         in if cb_returns k then set_pc t (OnSuccess_done i k) c'
            else set_pc t Hung (set_fut i (f\<lparr>mutex := True\<rparr>) c'))
      else set_pc t (OnSuccess_done i k) (set_fut i (f\<lparr>onSuccess := onSuccess f @ [k]\<rparr>) c))"

definition OnFailure :: "nat \<Rightarrow> nat \<Rightarrow> cb \<Rightarrow> ('v, 'e) config \<Rightarrow> ('v, 'e) config" where
  "OnFailure t i k c =
     (let f = futs c ! i in
      if mutex f then c
      else if state f = Rejected then
        (let c' = emit (Immediate_failure i k (err f)) c
         in if cb_returns k then set_pc t (OnFailure_done i k) c'
            else set_pc t Hung (set_fut i (f\<lparr>mutex := True\<rparr>) c'))
      else set_pc t (OnFailure_done i k) (set_fut i (f\<lparr>onFailure := onFailure f @ [k]\<rparr>) c))"

text \<open>
  \<open>Then\<close>, lines 36 to 49: the unlocked read of \<open>started\<close>, \<open>go f.Start()\<close>, and the new
  future around the closure; then lines 52 to 56, the link under the mutex.
\<close>

definition Then_new ::
  "nat \<Rightarrow> nat \<Rightarrow> ('v option \<Rightarrow> ('v option \<times> 'e option) option) \<Rightarrow> ('v, 'e) config \<Rightarrow> ('v, 'e) config" where
  "Then_new t i nextTask c =
     (let c' = (if \<not> started (futs c ! i) then spawn (Start_enter i) c else c);
          nextFuture = length (futs c')
      in set_pc t (Then_link i nextFuture)
           (c'\<lparr>futs := futs c' @ [NewFuture None (Closure i nextTask)]\<rparr>))"

definition Then_locked :: "nat \<Rightarrow> nat \<Rightarrow> nat \<Rightarrow> ('v, 'e) config \<Rightarrow> ('v, 'e) config" where
  "Then_locked t i nextFuture c =
     (let f = futs c ! i in
      if mutex f then c
      else set_pc t (Then_done i nextFuture) (set_fut i (f\<lparr>next_fut := Some nextFuture\<rparr>) c))"

text \<open>
  One step of thread \<open>t\<close> at program point \<open>p\<close>. A thread that waits for the mutex or for
  \<open>done\<close>, and a thread that has returned, leave the configuration as it is.
\<close>

fun run :: "nat \<Rightarrow> ('v, 'e) pc \<Rightarrow> ('v, 'e) config \<Rightarrow> ('v, 'e) config" where
  "run t (Start_enter i) c = Start t (Start_done i) i c"
| "run t (Go_task i) c =
     (let c' = emit (Invoked_task i) c in
      case task (futs c ! i) of
        Supplied None \<Rightarrow> set_pc t Hung c'
      | Supplied (Some (res, er)) \<Rightarrow> set_pc t (Go_lock i res er) c'
      | Closure f nextTask \<Rightarrow> set_pc t (Result_enter f (Link i nextTask)) c')"
| "run t (Go_lock i res er) c =
     (let f = futs c ! i in
      if mutex f then c
      else case complete i res er f of (f', p) \<Rightarrow> set_pc t p (set_fut i f' c))"
| "run t (Go_fail i [] er) c = close_done t i c"
| "run t (Go_fail i (k # callbacks) er) c =
     set_pc t (if cb_returns k then Go_fail i callbacks er else Hung)
       (emit (Fired_failure i k er) c)"
| "run t (Go_succ i [] res) c = close_done t i c"
| "run t (Go_succ i (k # callbacks) res) c =
     set_pc t (if cb_returns k then Go_succ i callbacks res else Hung)
       (emit (Fired_success i k res) c)"
| "run t (Result_enter i from) c =
     set_pc t (if \<not> started (futs c ! i) then Result_start i from else Result_wait i from) c"
| "run t (Result_start i from) c = Start t (Result_wait i from) i c"
| "run t (Result_wait i from) c =
     (if done_ch (futs c ! i) then set_pc t (Result_read i from) c else c)"
| "run t (Result_read i from) c =
     (let f = futs c ! i in
      if mutex f then c
      else case from of
        Client \<Rightarrow> set_pc t (Result_done i (result f) (err f)) c
      | Link n nextTask \<Rightarrow> set_pc t (Closure_test n nextTask (result f) (err f)) c)"
| "run t (Closure_test n nextTask res er) c =
     (if er \<noteq> None then set_pc t (Go_lock n None er) c
      else let c' = emit (Invoked_next n res) c in
        case nextTask res of
          None \<Rightarrow> set_pc t Hung c'
        | Some (res', er') \<Rightarrow> set_pc t (Go_lock n res' er') c')"
| "run t (Then_enter i nextTask) c = Then_new t i nextTask c"
| "run t (Then_link i nextFuture) c = Then_locked t i nextFuture c"
| "run t (OnSuccess_enter i k) c = OnSuccess t i k c"
| "run t (OnFailure_enter i k) c = OnFailure t i k c"
| "run t (State_enter i) c =
     (let f = futs c ! i in if mutex f then c else set_pc t (State_done i (state f)) c)"
| "run t (Start_done i) c = c"
| "run t (Go_done i) c = c"
| "run t (Go_abort i) c = c"
| "run t (Panicked i) c = c"
| "run t Hung c = c"
| "run t (Result_done i res er) c = c"
| "run t (Then_done i nextFuture) c = c"
| "run t (OnSuccess_done i k) c = c"
| "run t (OnFailure_done i k) c = c"
| "run t (State_done i s) c = c"

text \<open>
  What the environment does: client code creates a future from a computation, calls a method
  of an existing future (which starts a thread at the method's entry), or the scheduler lets
  a thread take its next step.
\<close>

datatype ('v, 'e) action =
    Call_NewFuture "'v option" "('v option \<times> 'e option) option"
  | Call_Start nat
  | Call_Result nat
  | Call_Then nat "'v option \<Rightarrow> ('v option \<times> 'e option) option"
  | Call_OnSuccess nat cb
  | Call_OnFailure nat cb
  | Call_State nat
  | Run nat

definition call :: "nat \<Rightarrow> ('v, 'e) pc \<Rightarrow> ('v, 'e) config \<Rightarrow> ('v, 'e) config" where
  "call i p c = (if i < length (futs c) then spawn p c else c)"

fun step :: "('v, 'e) config \<Rightarrow> ('v, 'e) action \<Rightarrow> ('v, 'e) config" where
  "step c (Call_NewFuture z out) = c\<lparr>futs := futs c @ [NewFuture z (Supplied out)]\<rparr>"
| "step c (Call_Start i) = call i (Start_enter i) c"
| "step c (Call_Result i) = call i (Result_enter i Client) c"
| "step c (Call_Then i nextTask) = call i (Then_enter i nextTask) c"
| "step c (Call_OnSuccess i k) = call i (OnSuccess_enter i k) c"
| "step c (Call_OnFailure i k) = call i (OnFailure_enter i k) c"
| "step c (Call_State i) = call i (State_enter i) c"
| "step c (Run t) = (if t < length (threads c) then run t (threads c ! t) c else c)"

definition exec :: "('v, 'e) config \<Rightarrow> ('v, 'e) action list \<Rightarrow> ('v, 'e) config" where
  "exec c as = foldl step c as"

section \<open>Ownership\<close>

text \<open>
  The future a thread is completing: the goroutine spawned by \<open>Start\<close>, from the call
  of the task to the close of \<open>done\<close>, the call of \<open>Result\<close> on the parent
  made by the closure of a chained future included.
\<close>

fun owner :: "('v, 'e) pc \<Rightarrow> nat option" where
  "owner (Go_task i) = Some i"
| "owner (Go_lock i res er) = Some i"
| "owner (Go_fail i ks er) = Some i"
| "owner (Go_succ i ks res) = Some i"
| "owner (Result_enter f (Link i nextTask)) = Some i"
| "owner (Result_start f (Link i nextTask)) = Some i"
| "owner (Result_wait f (Link i nextTask)) = Some i"
| "owner (Result_read f (Link i nextTask)) = Some i"
| "owner (Closure_test i nextTask res er) = Some i"
| "owner p = None"

text \<open>The goroutine has left the locked region and runs the callbacks.\<close>

fun firing :: "('v, 'e) pc \<Rightarrow> bool" where
  "firing (Go_fail i ks er) = True"
| "firing (Go_succ i ks res) = True"
| "firing p = False"

text \<open>The future on which a method call in progress was made.\<close>

fun target :: "('v, 'e) pc \<Rightarrow> nat option" where
  "target (Start_enter i) = Some i"
| "target (Start_done i) = Some i"
| "target (Result_enter i w) = Some i"
| "target (Result_start i w) = Some i"
| "target (Result_wait i w) = Some i"
| "target (Result_read i w) = Some i"
| "target (Result_done i res er) = Some i"
| "target (Then_enter i nextTask) = Some i"
| "target (Then_link i n) = Some i"
| "target (Then_done i n) = Some i"
| "target (OnSuccess_enter i k) = Some i"
| "target (OnSuccess_done i k) = Some i"
| "target (OnFailure_enter i k) = Some i"
| "target (OnFailure_done i k) = Some i"
| "target (State_enter i) = Some i"
| "target (State_done i s) = Some i"
| "target p = None"

text \<open>The defensive branch of the goroutine, and the panic of a second close.\<close>

fun failed :: "('v, 'e) pc \<Rightarrow> bool" where
  "failed (Go_abort i) = True"
| "failed (Panicked i) = True"
| "failed p = False"

text \<open>
  A thread has not failed and refers to futures that exist; the future of a goroutine is started
  and open, and it is Running exactly until the goroutine has passed its locked region.
\<close>

definition thread_ok :: "('v, 'e) future list \<Rightarrow> ('v, 'e) pc \<Rightarrow> bool" where
  "thread_ok fs p \<longleftrightarrow>
     \<not> failed p \<and>
     (\<forall>i. target p = Some i \<longrightarrow> i < length fs) \<and>
     (\<forall>i. owner p = Some i \<longrightarrow>
        i < length fs \<and> \<not> done_ch (fs ! i) \<and> state (fs ! i) \<noteq> Pending \<and>
        (firing p \<longleftrightarrow> state (fs ! i) \<noteq> Running))"

text \<open>
  \<open>started\<close> is set exactly when the state has left Pending, and a closed channel
  belongs to a terminal state.
\<close>

definition fut_ok :: "('v, 'e) future \<Rightarrow> bool" where
  "fut_ok f \<longleftrightarrow>
     (started f \<longleftrightarrow> state f \<noteq> Pending) \<and>
     (done_ch f \<longrightarrow> state f = Fulfilled \<or> state f = Rejected)"

text \<open>No future has two goroutines.\<close>

definition uniq :: "('v, 'e) pc list \<Rightarrow> bool" where
  "uniq ths \<longleftrightarrow>
     (\<forall>s < length ths. \<forall>t < length ths. \<forall>i.
        owner (ths ! s) = Some i \<and> owner (ths ! t) = Some i \<longrightarrow> s = t)"

text \<open>The closure of a chained future waits for a future created before it.\<close>

definition parents :: "('v, 'e) future list \<Rightarrow> bool" where
  "parents fs \<longleftrightarrow> (\<forall>i < length fs. \<forall>f k. task (fs ! i) = Closure f k \<longrightarrow> f < i)"

text \<open>The ownership invariant of a configuration.\<close>

definition own :: "('v, 'e) config \<Rightarrow> bool" where
  "own c \<longleftrightarrow>
     (\<forall>p \<in> set (threads c). thread_ok (futs c) p) \<and>
     (\<forall>f \<in> set (futs c). fut_ok f) \<and>
     uniq (threads c) \<and> parents (futs c)"

text \<open>The order in which the states are passed through.\<close>

definition forward :: "State \<Rightarrow> State \<Rightarrow> bool" where
  "forward s s' \<longleftrightarrow>
     s' = s \<or> (s = Pending \<and> s' = Running) \<or> (s = Running \<and> (s' = Fulfilled \<or> s' = Rejected))"

text \<open>The two states of a completed future.\<close>

definition terminal :: "State \<Rightarrow> bool" where
  "terminal s \<longleftrightarrow> s = Fulfilled \<or> s = Rejected"

section \<open>The trace of a run\<close>

text \<open>
  The future whose goroutine emits an event; the immediate callbacks of a late registration are
  emitted by the registering thread.
\<close>

fun about :: "('v, 'e) event \<Rightarrow> nat option" where
  "about (Invoked_task i) = Some i"
| "about (Invoked_next i v) = Some i"
| "about (Fired_failure i k e) = Some i"
| "about (Fired_success i k v) = Some i"
| "about (Closed_done i) = Some i"
| "about (Immediate_failure i k e) = None"
| "about (Immediate_success i k v) = None"

text \<open>The future an event is about.\<close>

fun subject :: "('v, 'e) event \<Rightarrow> nat" where
  "subject (Invoked_task i) = i"
| "subject (Invoked_next i v) = i"
| "subject (Fired_failure i k e) = i"
| "subject (Fired_success i k v) = i"
| "subject (Closed_done i) = i"
| "subject (Immediate_failure i k e) = i"
| "subject (Immediate_success i k v) = i"

text \<open>
  The arguments with which the continuation of future \<open>i\<close> was invoked, in order.
\<close>

fun next_arg :: "nat \<Rightarrow> ('v, 'e) event \<Rightarrow> 'v option option" where
  "next_arg i (Invoked_next j v) = (if j = i then Some v else None)"
| "next_arg i ev = None"

definition nexts :: "nat \<Rightarrow> ('v, 'e) event list \<Rightarrow> 'v option list" where
  "nexts i tr = List.map_filter (next_arg i) tr"

text \<open>
  The events of the completion of future \<open>i\<close>: the callbacks fired by the goroutine
  and the close.
\<close>

fun completes :: "nat \<Rightarrow> ('v, 'e) event \<Rightarrow> bool" where
  "completes i (Fired_failure j k e) = (j = i)"
| "completes i (Fired_success j k v) = (j = i)"
| "completes i (Closed_done j) = (j = i)"
| "completes i ev = False"

definition completion :: "nat \<Rightarrow> ('v, 'e) event list \<Rightarrow> ('v, 'e) event list" where
  "completion i tr = filter (completes i) tr"

text \<open>
  A call of \<open>Result\<close> made by the closure of future \<open>i\<close> is a call on the
  parent named in the task of \<open>i\<close>, and the continuation has not been invoked yet.
\<close>

definition linked :: "('v, 'e) future list \<Rightarrow> ('v, 'e) event list \<Rightarrow> nat \<Rightarrow> ('v, 'e) caller \<Rightarrow> bool" where
  "linked fs tr f w =
     (case w of Client \<Rightarrow> True | Link i k \<Rightarrow> task (fs ! i) = Closure f k \<and> nexts i tr = [])"

text \<open>
  The pair \<open>(res, er)\<close> is what the task of future \<open>i\<close> returns: the
  outcome of the supplied computation, or for a closure the failure of the closed parent passed on
  without a call of the continuation, or the outcome of the one call of the continuation on the
  value of the parent.
\<close>

definition settles ::
  "('v, 'e) future list \<Rightarrow> ('v, 'e) event list \<Rightarrow> nat \<Rightarrow> 'v option \<Rightarrow> 'e option \<Rightarrow> bool" where
  "settles fs tr i res er =
     (case task (fs ! i) of
        Supplied out \<Rightarrow> out = Some (res, er)
      | Closure f k \<Rightarrow>
          done_ch (fs ! f) \<and>
          (case err (fs ! f) of
             Some x \<Rightarrow> res = None \<and> er = Some x \<and> nexts i tr = []
           | None \<Rightarrow> k (result (fs ! f)) = Some (res, er) \<and> nexts i tr = [result (fs ! f)]))"

text \<open>
  If the continuation of future \<open>i\<close> has been invoked, it was invoked once, on the
  value of its closed and successful parent.
\<close>

definition called :: "('v, 'e) future list \<Rightarrow> ('v, 'e) event list \<Rightarrow> nat \<Rightarrow> bool" where
  "called fs tr i \<longleftrightarrow>
     (nexts i tr \<noteq> [] \<longrightarrow>
        (\<exists>f k. task (fs ! i) = Closure f k \<and> done_ch (fs ! f) \<and> err (fs ! f) = None \<and>
           nexts i tr = [result (fs ! f)]))"

text \<open>What holds of the local variables of a thread at each program point.\<close>

definition tinv :: "('v, 'e) future list \<Rightarrow> ('v, 'e) event list \<Rightarrow> ('v, 'e) pc \<Rightarrow> bool" where
  "tinv fs tr p =
     (case p of
        Go_task i \<Rightarrow> Invoked_task i \<notin> set tr \<and> nexts i tr = []
      | Result_enter f w \<Rightarrow> linked fs tr f w
      | Result_start f w \<Rightarrow> linked fs tr f w
      | Result_wait f w \<Rightarrow> linked fs tr f w \<and> state (fs ! f) \<noteq> Pending
      | Result_read f w \<Rightarrow> linked fs tr f w \<and> done_ch (fs ! f)
      | Result_done f v e \<Rightarrow> done_ch (fs ! f) \<and> v = result (fs ! f) \<and> e = err (fs ! f)
      | Closure_test i k v e \<Rightarrow>
          nexts i tr = [] \<and>
          (\<exists>f. task (fs ! i) = Closure f k \<and> done_ch (fs ! f) \<and> v = result (fs ! f) \<and> e = err (fs ! f))
      | Go_lock i res er \<Rightarrow> settles fs tr i res er
      | Go_succ i ks v \<Rightarrow>
          state (fs ! i) = Fulfilled \<and> v = result (fs ! i) \<and>
          (\<exists>pre. onSuccess (fs ! i) = pre @ ks \<and> list_all cb_returns pre \<and>
             completion i tr = map (\<lambda>k. Fired_success i k v) pre)
      | Go_fail i ks e \<Rightarrow>
          state (fs ! i) = Rejected \<and> e = err (fs ! i) \<and>
          (\<exists>pre. onFailure (fs ! i) = pre @ ks \<and> list_all cb_returns pre \<and>
             completion i tr = map (\<lambda>k. Fired_failure i k e) pre)
      | State_done i s \<Rightarrow> terminal s \<longrightarrow> state (fs ! i) = s
      | _ \<Rightarrow> True)"

text \<open>What holds of a future and the events about it.\<close>

definition finv :: "('v, 'e) future list \<Rightarrow> ('v, 'e) event list \<Rightarrow> nat \<Rightarrow> bool" where
  "finv fs tr i \<longleftrightarrow>
     (state (fs ! i) = Pending \<longrightarrow> Invoked_task i \<notin> set tr \<and> nexts i tr = []) \<and>
     count_list tr (Invoked_task i) \<le> 1 \<and>
     called fs tr i \<and>
     (\<not> terminal (state (fs ! i)) \<longrightarrow> completion i tr = [] \<and> err (fs ! i) = None) \<and>
     (\<not> done_ch (fs ! i) \<longrightarrow> Closed_done i \<notin> set tr) \<and>
     (done_ch (fs ! i) \<longrightarrow>
        (state (fs ! i) = Fulfilled \<longrightarrow>
           list_all cb_returns (onSuccess (fs ! i)) \<and>
           completion i tr =
             map (\<lambda>k. Fired_success i k (result (fs ! i))) (onSuccess (fs ! i)) @ [Closed_done i]) \<and>
        (state (fs ! i) = Rejected \<longrightarrow>
           list_all cb_returns (onFailure (fs ! i)) \<and>
           completion i tr =
             map (\<lambda>k. Fired_failure i k (err (fs ! i))) (onFailure (fs ! i)) @ [Closed_done i])) \<and>
     (\<forall>f k. task (fs ! i) = Closure f k \<longrightarrow> state (fs ! i) \<noteq> Fulfilled \<longrightarrow> result (fs ! i) = None) \<and>
     (state (fs ! i) = Fulfilled \<longrightarrow> err (fs ! i) = None \<and> settles fs tr i (result (fs ! i)) None) \<and>
     (state (fs ! i) = Rejected \<longrightarrow>
        err (fs ! i) \<noteq> None \<and> (\<exists>res. settles fs tr i res (err (fs ! i))))"

text \<open>The invariant that relates futures, threads and trace.\<close>

definition sound :: "('v, 'e) config \<Rightarrow> bool" where
  "sound c \<longleftrightarrow>
     (\<forall>p \<in> set (threads c). tinv (futs c) (trace c) p) \<and>
     (\<forall>i < length (futs c). finv (futs c) (trace c) i) \<and>
     (\<forall>ev \<in> set (trace c). subject ev < length (futs c))"

text \<open>What every step keeps of a future it changes.\<close>

definition ext :: "('v, 'e) future \<Rightarrow> ('v, 'e) future \<Rightarrow> bool" where
  "ext f f' \<longleftrightarrow>
     task f' = task f \<and>
     (done_ch f \<longrightarrow> done_ch f' \<and> result f' = result f \<and> err f' = err f) \<and>
     (terminal (state f) \<longrightarrow> state f' = state f) \<and>
     (state f \<noteq> Pending \<longrightarrow> state f' \<noteq> Pending)"

definition same :: "('v, 'e) future \<Rightarrow> ('v, 'e) future \<Rightarrow> bool" where
  "same f f' \<longleftrightarrow>
     task f' = task f \<and> result f' = result f \<and> err f' = err f \<and> state f' = state f \<and>
     done_ch f' = done_ch f \<and> started f' = started f \<and>
     (state f = Fulfilled \<longrightarrow> onSuccess f' = onSuccess f) \<and>
     (state f = Rejected \<longrightarrow> onFailure f' = onFailure f)"

section \<open>The outcome of a computation\<close>

text \<open>
  What the computation of future \<open>i\<close> returns, read off the tasks alone: a supplied
  computation returns its outcome; the closure of \<open>Then\<close> returns the parent's failure with a
  nil value when the parent's computation failed, and what \<open>nextTask\<close> makes of the parent's
  value otherwise. \<open>None\<close> when some computation on the way does not return.
\<close>

function expected :: "('v, 'e) future list \<Rightarrow> nat \<Rightarrow> ('v option \<times> 'e option) option" where
  "expected fs i =
     (case task (fs ! i) of
        Supplied out \<Rightarrow> out
      | Closure f nextTask \<Rightarrow>
          if f < i then
            (case expected fs f of
               None \<Rightarrow> None
             | Some (res, Some x) \<Rightarrow> Some (None, Some x)
             | Some (res, None) \<Rightarrow> nextTask res)
          else None)"
  by pat_completeness auto

termination
  by (relation "measure snd") auto

text \<open>
  The mutex of a future is held between two steps only by a callback that was fired at
  registration and does not return; the future is then in a terminal state.
\<close>

definition lock_ok :: "('v, 'e) config \<Rightarrow> bool" where
  "lock_ok c \<longleftrightarrow> (\<forall>i < length (futs c). mutex (futs c ! i) \<longrightarrow> terminal (state (futs c ! i)))"

section \<open>Example runs\<close>

text \<open>A future started three times: by \<open>Start\<close>, by \<open>Start\<close> again and by \<open>Result\<close>.\<close>

definition started_thrice :: "(nat, string) config" where
  "started_thrice =
     exec init [Call_NewFuture None (Some (Some 42, None)), Call_Start 0, Run 0, Call_Start 0,
       Call_Result 0, Run 1, Run 3]"

definition observed_rejected :: "(nat, string) config" where
  "observed_rejected =
     exec init [Call_NewFuture None (Some (None, Some ''boom'')), Call_Start 0, Run 0, Run 1, Run 1,
       Call_State 0, Run 2]"

definition observed_again :: "(nat, string) config" where
  "observed_again = exec observed_rejected [Run 1, Call_State 0, Run 3]"

text \<open>
  The future \<open>n\<close> links up the chain from \<open>x\<close>: its parent for \<open>n = 1\<close>, the parent of its
  parent for \<open>n = 2\<close>, and so on.
\<close>

fun ancestor :: "('v, 'e) future list \<Rightarrow> nat \<Rightarrow> nat \<Rightarrow> nat option" where
  "ancestor fs 0 x = Some x"
| "ancestor fs (Suc n) x =
     (case task (fs ! x) of Supplied out \<Rightarrow> None | Closure f nextTask \<Rightarrow> ancestor fs n f)"












definition fulfilled_then_registered :: "(nat, string) config" where
  "fulfilled_then_registered =
     exec init [Call_NewFuture None (Some (Some 42, None)), Call_Start 0, Run 0, Run 1, Run 1, Run 1,
       Call_OnSuccess 0 (Cb 7 True)]"

text \<open>A future that failed and was closed, then \<open>OnSuccess\<close> and \<open>OnFailure\<close> are called on it.\<close>

definition rejected_then_registered :: "(nat, string) config" where
  "rejected_then_registered =
     exec init [Call_NewFuture None (Some (None, Some ''boom'')), Call_Start 0, Run 0, Run 1, Run 1, Run 1,
       Call_OnSuccess 0 (Cb 7 True), Call_OnFailure 0 (Cb 8 True)]"

text \<open>The configuration with every successor link erased.\<close>

definition forget :: "('v, 'e) config \<Rightarrow> ('v, 'e) config" where
  "forget c = c\<lparr>futs := map (\<lambda>f. f\<lparr>next_fut := None\<rparr>) (futs c)\<rparr>"

text \<open>\<open>Then\<close> is called on a fresh future, as the tests do.\<close>

definition then_on_fresh :: "(nat, string) config" where
  "then_on_fresh =
     exec init [Call_NewFuture None (Some (Some 1, None)), Call_Then 0 (\<lambda>res. Some (res, None))]"

definition then_on_fresh_1 :: "(nat, string) config" where
  "then_on_fresh_1 = step then_on_fresh (Run 0)"

definition then_on_fresh_2 :: "(nat, string) config" where
  "then_on_fresh_2 = step then_on_fresh_1 (Run 0)"

section \<open>Callbacks that are invoked, and distance to the close\<close>

text \<open>
  The callbacks that the goroutine of future \<open>i\<close> fires: the list that matches the outcome of
  its computation.
\<close>

definition matching :: "('v, 'e) future list \<Rightarrow> nat \<Rightarrow> cb list" where
  "matching fs i =
     (case expected fs i of
        None \<Rightarrow> []
      | Some (res, None) \<Rightarrow> onSuccess (fs ! i)
      | Some (res, Some x) \<Rightarrow> onFailure (fs ! i))"

text \<open>
  Every future that is started and not yet closed, whose computation returns and whose
  matching callbacks return, has its goroutine.
\<close>

definition alive :: "('v, 'e) config \<Rightarrow> bool" where
  "alive c \<longleftrightarrow>
     (\<forall>i < length (futs c).
        state (futs c ! i) \<noteq> Pending \<longrightarrow> \<not> done_ch (futs c ! i) \<longrightarrow> expected (futs c) i \<noteq> None \<longrightarrow>
        list_all cb_returns (matching (futs c) i) \<longrightarrow>
        (\<exists>t < length (threads c). owner (threads c ! t) = Some i))"

text \<open>How far the goroutine of a future is from the close, counted in program points.\<close>

definition ph :: "('v, 'e) pc \<Rightarrow> nat" where
  "ph p =
     (case p of
        Go_task i \<Rightarrow> 8
      | Result_enter f w \<Rightarrow> 7
      | Result_start f w \<Rightarrow> 6
      | Result_wait f w \<Rightarrow> 5
      | Result_read f w \<Rightarrow> 4
      | Closure_test i k v e \<Rightarrow> 3
      | Go_lock i res er \<Rightarrow> 2
      | Go_fail i ks er \<Rightarrow> 1
      | Go_succ i ks res \<Rightarrow> 1
      | _ \<Rightarrow> 0)"

text \<open>A thread that waits for a channel that is still open.\<close>

definition blocked :: "('v, 'e) config \<Rightarrow> ('v, 'e) pc \<Rightarrow> bool" where
  "blocked c p = (case p of Result_wait f w \<Rightarrow> \<not> done_ch (futs c ! f) | _ \<Rightarrow> False)"

text \<open>A thread that is about to register a callback.\<close>

definition registering :: "('v, 'e) pc \<Rightarrow> bool" where
  "registering p = (case p of OnSuccess_enter i k \<Rightarrow> True | OnFailure_enter i k \<Rightarrow> True | _ \<Rightarrow> False)"

text \<open>
  Future \<open>i\<close> still waits for its parent: it is open, and it is not started or its goroutine
  has not yet read the parent's result.
\<close>

definition waits :: "('v, 'e) config \<Rightarrow> nat \<Rightarrow> bool" where
  "waits c i \<longleftrightarrow>
     \<not> done_ch (futs c ! i) \<and>
     (state (futs c ! i) = Pending \<or> list_ex (\<lambda>p. owner p = Some i \<and> 4 \<le> ph p) (threads c))"

text \<open>
  The futures on whose completion a call of \<open>Result\<close> on future \<open>i\<close> depends: \<open>i\<close>, and the
  ancestors of \<open>i\<close> up to the first one that no longer waits for its parent.
\<close>

function needs :: "('v, 'e) config \<Rightarrow> nat \<Rightarrow> nat list" where
  "needs c i =
     i # (case task (futs c ! i) of
            Supplied out \<Rightarrow> []
          | Closure f nextTask \<Rightarrow> if f < i \<and> waits c i then needs c f else [])"
  by pat_completeness auto

termination
  by (relation "measure snd") auto

text \<open>
  Nothing stands in the way of the completion of future \<open>i\<close>: the callbacks that will be fired
  for it and for the ancestors it depends on all return, and no mutex of such an ancestor is
  held by a callback that does not return.
\<close>

definition unhindered :: "('v, 'e) config \<Rightarrow> nat \<Rightarrow> bool" where
  "unhindered c i \<longleftrightarrow>
     list_all (\<lambda>j. list_all cb_returns (matching (futs c) j)) (needs c i) \<and>
     list_all (\<lambda>j. \<not> mutex (futs c ! j)) (tl (needs c i))"

text \<open>The threads of client code are where they were, and no mutex has changed hands.\<close>

definition clients_kept :: "('v, 'e) config \<Rightarrow> ('v, 'e) config \<Rightarrow> bool" where
  "clients_kept c c' \<longleftrightarrow>
     length (threads c) \<le> length (threads c') \<and>
     (\<forall>u < length (threads c). owner (threads c ! u) = None \<longrightarrow> threads c' ! u = threads c ! u) \<and>
     length (futs c) \<le> length (futs c') \<and>
     (\<forall>j < length (futs c). mutex (futs c' ! j) = mutex (futs c ! j))"

text \<open>
  What the steps of the goroutines keep, for a set \<open>S\<close> of futures closed under the parents
  that are still waited for: the invariants of all executions, and that the matching callbacks
  of the futures in \<open>S\<close> return and the mutex of a parent that is waited for is free.
\<close>

definition fine :: "(nat \<Rightarrow> bool) \<Rightarrow> ('v, 'e) config \<Rightarrow> bool" where
  "fine S c \<longleftrightarrow>
     own c \<and> sound c \<and> alive c \<and> lock_ok c \<and>
     (\<forall>j. S j \<longrightarrow> j < length (futs c) \<and> list_all cb_returns (matching (futs c) j)) \<and>
     (\<forall>j f k. S j \<longrightarrow> waits c j \<longrightarrow> task (futs c ! j) = Closure f k \<longrightarrow> S f \<and> \<not> mutex (futs c ! f))"

text \<open>Some schedule of the goroutines closes \<open>done\<close> of future \<open>i\<close>.\<close>

definition reaches :: "(nat \<Rightarrow> bool) \<Rightarrow> ('v, 'e) config \<Rightarrow> nat \<Rightarrow> bool" where
  "reaches S c i \<longleftrightarrow>
     (\<exists>ts. done_ch (futs (exec c (map Run ts)) ! i) \<and> clients_kept c (exec c (map Run ts)) \<and>
        fine S (exec c (map Run ts)))"

text \<open>Some schedule of the threads lets the call of \<open>Result\<close> in thread \<open>u\<close> return.\<close>

definition returns :: "('v, 'e) config \<Rightarrow> nat \<Rightarrow> nat \<Rightarrow> bool" where
  "returns c u i \<longleftrightarrow>
     (\<exists>ts v e. u < length (threads (exec c (map Run ts))) \<and>
        threads (exec c (map Run ts)) ! u = Result_done i v e)"

text \<open>A started future that has no goroutine left stays as it is.\<close>

definition orphan :: "('v, 'e) config \<Rightarrow> nat \<Rightarrow> bool" where
  "orphan c i \<longleftrightarrow>
     i < length (futs c) \<and> state (futs c ! i) \<noteq> Pending \<and> \<not> done_ch (futs c ! i) \<and>
     list_all (\<lambda>p. owner p \<noteq> Some i) (threads c)"

section \<open>Example runs of \<open>Result\<close> and of the completion\<close>

text \<open>
  A future on which \<open>Start\<close> is never called: \<open>Result\<close> is called on it, returns, and is called
  a second time.
\<close>

definition never_started :: "(nat, string) config" where
  "never_started = exec init [Call_NewFuture None (Some (Some 7, None)), Call_Result 0]"

definition first_Result :: "(nat, string) config" where
  "first_Result =
     exec init [Call_NewFuture None (Some (Some 7, None)), Call_Result 0,
       Run 0, Run 0, Run 1, Run 1, Run 1, Run 0, Run 0]"

definition second_Result :: "(nat, string) config" where
  "second_Result = exec first_Result [Call_Result 0, Run 2, Run 2, Run 2]"

text \<open>
  The goroutine of future 0 is inside a callback that does not return; \<open>Result\<close> is called on
  future 1, on which \<open>Start\<close> is never called.
\<close>

definition other_hangs :: "(nat, string) config" where
  "other_hangs =
     exec init [Call_NewFuture None (Some (Some 1, None)), Call_OnSuccess 0 (Cb 0 False), Run 0,
       Call_Start 0, Run 1, Run 2, Run 2, Run 2,
       Call_NewFuture None (Some (Some 7, None)), Call_Result 1]"

text \<open>\<open>Result\<close> is called on the child of a future; neither has been started.\<close>

definition child_Result :: "(nat, string) config" where
  "child_Result =
     exec init [Call_NewFuture None (Some (Some 1, None)), Call_Then 0 (\<lambda>res. Some (res, None)),
       Run 0, Run 0, Call_Result 1]"

text \<open>
  A success callback that never returns, registered before \<open>Start\<close>: the goroutine has
  fulfilled the future and is inside the callback, and \<open>Result\<close> waits for \<open>done\<close>.
\<close>

definition callback_hangs :: "(nat, string) config" where
  "callback_hangs =
     exec init [Call_NewFuture None (Some (Some 42, None)), Call_OnSuccess 0 (Cb 0 False), Run 0,
       Call_Start 0, Run 1, Run 2, Run 2, Run 2, Call_Result 0, Run 3]"

text \<open>
  Whatever the threads and the client code do from \<open>c\<close> on, \<open>done\<close> of future \<open>i\<close> stays open,
  it has never been closed, and the call of \<open>Result\<close> in thread \<open>u\<close> is still waiting for it.
\<close>

definition blocks_forever :: "('v, 'e) config \<Rightarrow> nat \<Rightarrow> nat \<Rightarrow> bool" where
  "blocks_forever c u i \<longleftrightarrow>
     (\<forall>bs. \<not> done_ch (futs (exec c bs) ! i) \<and>
        count_list (trace (exec c bs)) (Closed_done i) = 0 \<and>
        u < length (threads (exec c bs)) \<and> threads (exec c bs) ! u = Result_wait i Client)"

text \<open>A started future whose goroutine holds the outcome, and a call of \<open>Result\<close> that waits.\<close>

definition about_to_complete :: "(nat, string) config" where
  "about_to_complete =
     exec init [Call_NewFuture None (Some (Some 42, None)), Call_Start 0, Run 0, Call_Result 0,
       Run 2, Run 1]"

section \<open>The goroutine completes its future once\<close>

text \<open>
  A chain of two futures: the goroutine of the child waits for the parent, on which a failure
  callback that does not return is registered.
\<close>

definition waiting_child :: "(nat, string) config" where
  "waiting_child =
     exec init [Call_NewFuture None (Some (Some 1, None)), Call_Then 0 (\<lambda>res. Some (res, None)),
       Run 0, Run 0, Run 1, Call_OnFailure 0 (Cb 0 False), Run 3, Call_Start 1, Run 4, Run 5, Run 5]"

section \<open>Ownership is invariant\<close>

lemma parents_update:
  assumes "parents fs" "task f = task (fs ! i)"
  shows "parents (fs[i := f])"
proof -
  have "task (fs[i := f] ! j) = task (fs ! j)" if "j < length fs" for j
    using that assms(2) by (cases "j = i") auto
  with assms(1) show ?thesis by (simp add: parents_def)
qed

lemma parents_append:
  "parents fs \<Longrightarrow> (\<And>p k. task f = Closure p k \<Longrightarrow> p < length fs) \<Longrightarrow> parents (fs @ [f])"
  by (auto simp: parents_def nth_append less_Suc_eq)

lemma sel_simps [simp]:
  "futs (set_pc t p c) = futs c" "threads (set_pc t p c) = (threads c)[t := p]" "trace (set_pc t p c) = trace c"
  "futs (spawn p c) = futs c" "threads (spawn p c) = threads c @ [p]" "trace (spawn p c) = trace c"
  "futs (set_fut i f c) = (futs c)[i := f]" "threads (set_fut i f c) = threads c" "trace (set_fut i f c) = trace c"
  "futs (emit ev c) = futs c" "threads (emit ev c) = threads c" "trace (emit ev c) = trace c @ [ev]"
  by (simp_all add: set_pc_def spawn_def set_fut_def emit_def)

lemma in_set_updateD: "q \<in> set (xs[t := p]) \<Longrightarrow> q = p \<or> q \<in> set xs"
  using set_update_subset_insert [of xs t p] by auto

lemma uniq_update:
  assumes "uniq ths" "t < length ths" "owner p = None \<or> owner p = owner (ths ! t)"
  shows "uniq (ths[t := p])"
proof -
  have keep: "owner (ths ! s) = Some i" if "s < length ths" "owner (ths[t := p] ! s) = Some i" for s i
    using that assms(2,3) by (cases "s = t") auto
  show ?thesis
    unfolding uniq_def using assms(1) keep unfolding uniq_def by (metis length_list_update)
qed

lemma uniq_append:
  "uniq ths \<Longrightarrow> \<forall>q \<in> set ths. owner q \<noteq> owner p \<Longrightarrow> uniq (ths @ [p])"
  unfolding uniq_def
  apply (intro allI impI)
  subgoal for s u i
    apply (cases "s < length ths"; cases "u < length ths")
       apply (auto simp: nth_append)
    done
  done

lemma uniq_append_None: "uniq ths \<Longrightarrow> owner p = None \<Longrightarrow> uniq (ths @ [p])"
  unfolding uniq_def
  apply (intro allI impI)
  subgoal for s u i
    apply (cases "s < length ths"; cases "u < length ths")
       apply (auto simp: nth_append)
    done
  done

lemma uniq_others:
  assumes "uniq ths" "t < length ths" "owner (ths ! t) = Some i" "q \<in> set (ths[t := p])"
  shows "q = p \<or> owner q \<noteq> Some i"
proof -
  from assms(4) obtain s where s: "s < length ths" "q = ths[t := p] ! s"
    by (auto simp: in_set_conv_nth)
  show ?thesis
  proof (cases "s = t")
    case True with s assms(2) show ?thesis by simp
  next
    case False
    with s have "q = ths ! s" by simp
    with assms(1,2,3) s(1) False show ?thesis unfolding uniq_def by blast
  qed
qed

lemma own_init: "own init"
  by (simp add: own_def init_def uniq_def parents_def)

lemma own_emit [simp]: "own (emit ev c) = own c"
  by (simp add: own_def)

lemma own_spawn:
  "own c \<Longrightarrow> owner p = None \<Longrightarrow> thread_ok (futs c) p \<Longrightarrow> own (spawn p c)"
  by (auto simp: own_def uniq_append_None)

lemma own_call:
  "own c \<Longrightarrow> owner p = None \<Longrightarrow> target p = Some i \<Longrightarrow> \<not> failed p \<Longrightarrow> own (call i p c)"
  by (auto simp: call_def thread_ok_def intro!: own_spawn)

lemma thread_ok_append: "thread_ok fs p \<Longrightarrow> thread_ok (fs @ [f]) p"
  by (auto simp: thread_ok_def nth_append)

lemma own_new:
  "own c \<Longrightarrow> futs c = fs \<Longrightarrow> (\<And>p k. tk = Closure p k \<Longrightarrow> p < length fs) \<Longrightarrow>
   own (c\<lparr>futs := fs @ [NewFuture z tk]\<rparr>)"
  by (auto simp: own_def thread_ok_append fut_ok_def NewFuture_def intro!: parents_append)

lemma own_set_pc:
  "own c \<Longrightarrow> t < length (threads c) \<Longrightarrow> thread_ok (futs c) p \<Longrightarrow>
   owner p = None \<or> owner p = owner (threads c ! t) \<Longrightarrow> own (set_pc t p c)"
  by (auto simp: own_def uniq_update dest!: in_set_updateD)

lemma thread_ok_same:
  "thread_ok fs p \<Longrightarrow> i < length fs \<Longrightarrow> state f = state (fs ! i) \<Longrightarrow> done_ch f = done_ch (fs ! i) \<Longrightarrow>
   thread_ok (fs[i := f]) p"
  by (auto simp: thread_ok_def nth_list_update)

lemma thread_ok_other:
  "thread_ok fs p \<Longrightarrow> owner p \<noteq> Some i \<Longrightarrow> thread_ok (fs[i := f]) p"
  by (auto simp: thread_ok_def nth_list_update)

lemma own_set_fut:
  "own c \<Longrightarrow> i < length (futs c) \<Longrightarrow> state f = state (futs c ! i) \<Longrightarrow>
   done_ch f = done_ch (futs c ! i) \<Longrightarrow> started f = started (futs c ! i) \<Longrightarrow>
   task f = task (futs c ! i) \<Longrightarrow> own (set_fut i f c)"
  apply (auto simp: own_def thread_ok_same parents_update dest!: in_set_updateD)
  apply (auto simp: fut_ok_def)
  done

lemma own_parent: "own c \<Longrightarrow> i < length (futs c) \<Longrightarrow> task (futs c ! i) = Closure f k \<Longrightarrow> f < i"
  by (auto simp: own_def parents_def)

lemma own_parent_less:
  "own c \<Longrightarrow> i < length (futs c) \<Longrightarrow> task (futs c ! i) = Closure f k \<Longrightarrow> f < length (futs c)"
  using own_parent [of c i f k] by simp

lemma own_thread: "own c \<Longrightarrow> t < length (threads c) \<Longrightarrow> thread_ok (futs c) (threads c ! t)"
  by (simp add: own_def)

lemma own_fut: "own c \<Longrightarrow> i < length (futs c) \<Longrightarrow> fut_ok (futs c ! i)"
  by (simp add: own_def)

lemma own_no_owner:
  assumes "own c" "i < length (futs c)" "state (futs c ! i) = Pending" "q \<in> set (threads c)"
  shows "owner q \<noteq> Some i"
  using assms by (auto simp: own_def thread_ok_def)

text \<open>\<open>Start\<close> keeps the invariant, whichever method calls it.\<close>

lemma own_Start:
  assumes "own c" "t < length (threads c)" "i < length (futs c)"
    and ret: "owner ret = owner (threads c ! t)" "target ret = Some i" "\<not> failed ret" "\<not> firing ret"
      "\<not> firing (threads c ! t)"
  shows "own (Start t ret i c)"
proof (cases "mutex (futs c ! i) \<or> state (futs c ! i) \<noteq> Pending")
  case True
  have "thread_ok (futs c) ret"
    using own_thread [OF assms(1,2)] ret assms(3) by (auto simp: thread_ok_def)
  then show ?thesis
    using True assms own_fut [OF assms(1,3)]
    by (auto simp: Start_def Start_locked_def Let_def fut_ok_def intro!: own_set_pc own_set_fut)
next
  case False
  let ?f = "(futs c ! i)\<lparr>started := True, state := Running\<rparr>"
  let ?fs = "(futs c)[i := ?f]"
  from False own_fut [OF assms(1,3)] have ns: "\<not> started (futs c ! i)" "\<not> done_ch (futs c ! i)"
    by (auto simp: fut_ok_def)
  have eq: "Start t ret i c = spawn (Go_task i) (set_pc t ret (set_fut i ?f c))"
    using False ns by (simp add: Start_def Start_locked_def Let_def)
  have no: "\<forall>q \<in> set (threads c). owner q \<noteq> Some i"
    using own_no_owner [OF assms(1,3)] False by blast
  have old: "\<forall>q \<in> set (threads c). thread_ok ?fs q"
    using assms(1) no by (auto simp: own_def intro: thread_ok_other)
  have r: "thread_ok ?fs ret"
    using own_thread [OF assms(1,2)] ret assms(3) no assms(2)
    apply (auto simp: thread_ok_def nth_list_update)
    done
  have g: "thread_ok ?fs (Go_task i)"
    using assms(3) ns by (simp add: thread_ok_def)
  have f: "\<forall>f \<in> set ?fs. fut_ok f"
    using assms(1) ns by (auto simp: own_def fut_ok_def dest!: in_set_updateD)
  have p: "parents ?fs"
    using assms(1) by (auto simp: own_def intro: parents_update)
  have u: "uniq ((threads c)[t := ret] @ [Go_task i])"
  proof (rule uniq_append)
    show "uniq ((threads c)[t := ret])"
      using assms(1,2) ret(1) by (auto simp: own_def intro: uniq_update)
    show "\<forall>q\<in>set ((threads c)[t := ret]). owner q \<noteq> owner (Go_task i)"
      using no ret(1) assms(2) by (auto dest!: in_set_updateD)
  qed
  show ?thesis
    unfolding eq using old r g f u p
    by (auto simp: own_def dest!: in_set_updateD)
qed

lemma own_owner_step:
  assumes "own c" "t < length (threads c)" "owner (threads c ! t) = Some i"
    and "fut_ok f" "thread_ok ((futs c)[i := f]) p" "owner p = None \<or> owner p = Some i"
    and "task f = task (futs c ! i)"
  shows "own (set_pc t p (set_fut i f c))"
proof -
  have "thread_ok ((futs c)[i := f]) q" if "q \<in> set ((threads c)[t := p])" for q
  proof -
    from uniq_others [OF _ assms(2,3) that] assms(1) have "q = p \<or> owner q \<noteq> Some i"
      by (simp add: own_def)
    moreover from that assms(1) have "q = p \<or> thread_ok (futs c) q"
      by (auto simp: own_def dest!: in_set_updateD)
    ultimately show ?thesis using assms(5) by (auto intro: thread_ok_other)
  qed
  moreover have "\<forall>g \<in> set ((futs c)[i := f]). fut_ok g"
    using assms(1,4) by (auto simp: own_def dest!: in_set_updateD)
  moreover have "uniq ((threads c)[t := p])"
    using assms(1,2,3,6) by (auto simp: own_def intro: uniq_update)
  moreover have "parents ((futs c)[i := f])"
    using assms(1,7) by (auto simp: own_def intro: parents_update)
  ultimately show ?thesis by (simp add: own_def)
qed

lemma own_complete:
  assumes "own c" "t < length (threads c)" "threads c ! t = Go_lock i res er"
  shows "own (run t (Go_lock i res er) c)"
proof (cases "mutex (futs c ! i)")
  case True
  then show ?thesis using assms(1) by simp
next
  case False
  from own_thread [OF assms(1,2)] assms(3)
  have i: "i < length (futs c)" "state (futs c ! i) = Running" "\<not> done_ch (futs c ! i)"
    by (auto simp: thread_ok_def)
  from own_fut [OF assms(1) i(1)] i have st: "started (futs c ! i)"
    by (simp add: fut_ok_def)
  show ?thesis
    using False i st assms
    by (auto simp: complete_def Let_def fut_ok_def thread_ok_def intro!: own_owner_step)
qed

lemma own_close:
  assumes "own c" "t < length (threads c)" "owner (threads c ! t) = Some i" "firing (threads c ! t)"
  shows "own (close_done t i c)"
proof -
  from own_thread [OF assms(1,2)] assms(3,4)
  have i: "i < length (futs c)" "state (futs c ! i) \<noteq> Running" "state (futs c ! i) \<noteq> Pending"
    "\<not> done_ch (futs c ! i)"
    by (auto simp: thread_ok_def)
  from own_fut [OF assms(1) i(1)] i have st: "started (futs c ! i)"
    by (simp add: fut_ok_def)
  have eq: "close_done t i c = emit (Closed_done i) (set_pc t (Go_done i) (set_fut i ((futs c ! i)\<lparr>done_ch := True\<rparr>) c))"
    using i by (simp add: close_done_def Let_def set_pc_def emit_def set_fut_def)
  have s: "state (futs c ! i) = Fulfilled \<or> state (futs c ! i) = Rejected"
    using i by (cases "state (futs c ! i)") auto
  show ?thesis
    unfolding eq using i st s assms
    by (auto simp: fut_ok_def thread_ok_def intro!: own_owner_step)
qed

lemma own_run:
  assumes a: "own c" "t < length (threads c)"
  shows "own (run t (threads c ! t) c)"
proof -
  note tok = own_thread [OF a]
  show ?thesis
  proof (cases "threads c ! t")
    case (Start_enter i)
    then show ?thesis using a tok by (auto simp: thread_ok_def intro!: own_Start)
  next
    case (Go_task i)
    then show ?thesis using a tok
      by (auto simp: thread_ok_def Let_def split: task.splits option.splits
          intro!: own_set_pc dest: own_parent_less [OF a(1)])
  next
    case (Go_lock i res er)
    then show ?thesis using own_complete [OF a] by simp
  next
    case (Go_fail i ks er)
    then show ?thesis using a tok own_close [OF a, of i]
      by (cases ks) (auto simp: thread_ok_def intro!: own_set_pc)
  next
    case (Go_succ i ks res)
    then show ?thesis using a tok own_close [OF a, of i]
      by (cases ks) (auto simp: thread_ok_def intro!: own_set_pc)
  next
    case (Result_enter i w)
    then show ?thesis using a tok
      by (cases w) (auto simp: thread_ok_def intro!: own_set_pc)
  next
    case (Result_start i w)
    then show ?thesis using a tok by (cases w) (auto simp: thread_ok_def intro!: own_Start)
  next
    case (Result_wait i w)
    then show ?thesis using a tok
      by (cases w) (auto simp: thread_ok_def intro!: own_set_pc)
  next
    case (Result_read i w)
    then show ?thesis using a tok
      by (cases w) (auto simp: thread_ok_def Let_def intro!: own_set_pc)
  next
    case (Closure_test n nextTask res er)
    then show ?thesis using a tok
      by (auto simp: thread_ok_def Let_def split: option.splits intro!: own_set_pc)
  next
    case (Then_enter i nextTask)
    then show ?thesis using a tok
      by (auto simp: Then_new_def Let_def thread_ok_def nth_append
          intro!: own_set_pc own_new own_spawn)
  next
    case (Then_link i n)
    then show ?thesis using a tok
      by (auto simp: Then_locked_def Let_def thread_ok_def intro!: own_set_pc own_set_fut)
  next
    case (OnSuccess_enter i k)
    then show ?thesis using a tok
      by (auto simp: OnSuccess_def Let_def thread_ok_def intro!: own_set_pc own_set_fut)
  next
    case (OnFailure_enter i k)
    then show ?thesis using a tok
      by (auto simp: OnFailure_def Let_def thread_ok_def intro!: own_set_pc own_set_fut)
  next
    case (State_enter i)
    then show ?thesis using a tok
      by (auto simp: Let_def thread_ok_def intro!: own_set_pc)
  qed (simp_all add: a)
qed

lemma own_step: "own c \<Longrightarrow> own (step c a)"
  by (cases a) (auto intro!: own_call own_new own_run)

lemma exec_Nil [simp]: "exec c [] = c"
  by (simp add: exec_def)

lemma exec_snoc [simp]: "exec c (as @ [a]) = step (exec c as) a"
  by (simp add: exec_def)

lemma exec_Cons: "exec c (a # as) = exec (step c a) as"
  by (simp add: exec_def)

lemma exec_append: "exec c (as @ bs) = exec (exec c as) bs"
  by (simp add: exec_def)

lemma own_exec: "own c \<Longrightarrow> own (exec c as)"
  by (induction as rule: rev_induct) (simp_all add: own_step)

lemma own_reach: "own (exec init as)"
  by (simp add: own_exec own_init)

section \<open>States only move forward\<close>

lemmas run_defs = Start_def Start_locked_def complete_def close_done_def OnSuccess_def OnFailure_def
  Then_new_def Then_locked_def NewFuture_def Let_def

lemma nth_update_any: "(xs[i := x]) ! j = (if i = j \<and> i < length xs then x else xs ! j)"
  by (cases "i < length xs") (auto simp: nth_list_update list_update_beyond)

lemma length_futs_run: "length (futs c) \<le> length (futs (run t p c))"
  by (induction t p c rule: run.induct)
    (auto simp: run_defs split: task.splits option.splits prod.splits caller.splits)

lemma forward_run:
  "i < length (futs c) \<Longrightarrow> forward (state (futs c ! i)) (state (futs (run t p c) ! i))"
  by (induction t p c rule: run.induct)
    (auto simp: run_defs forward_def nth_update_any nth_append
      split: task.splits option.splits prod.splits caller.splits)

lemma forward_step:
  assumes "i < length (futs c)"
  shows "forward (state (futs c ! i)) (state (futs (step c a) ! i))"
proof (cases a)
  case (Run t)
  then show ?thesis using forward_run [OF assms, of t "threads c ! t"] by (auto simp: forward_def)
qed (use assms in \<open>auto simp: call_def spawn_def nth_append forward_def\<close>)

lemma length_futs_step: "length (futs c) \<le> length (futs (step c a))"
  using length_futs_run [of c] by (cases a) (auto simp: call_def spawn_def)

lemma length_futs_exec: "length (futs c) \<le> length (futs (exec c as))"
  by (induction as rule: rev_induct) (auto intro: order_trans length_futs_step)

lemma terminal_exec:
  assumes "i < length (futs c)" "terminal (state (futs c ! i))"
  shows "state (futs (exec c as) ! i) = state (futs c ! i)"
proof (induction as rule: rev_induct)
  case Nil
  then show ?case by simp
next
  case (snoc a as)
  have "i < length (futs (exec c as))"
    using assms(1) length_futs_exec [of c as] by simp
  from forward_step [OF this, of a] snoc assms(2) show ?case
    by (auto simp: forward_def terminal_def)
qed

section \<open>Frame lemmas\<close>

lemma ext_refl [simp]: "ext f f"
  by (simp add: ext_def)

lemma nexts_append [simp]: "nexts i (tr @ evs) = nexts i tr @ nexts i evs"
  by (simp add: nexts_def map_filter_def)

lemma nexts_Nil [simp]: "nexts i [] = []"
  by (simp add: nexts_def map_filter_def)

lemma nexts_Cons: "nexts i (ev # evs) = (case next_arg i ev of None \<Rightarrow> nexts i evs | Some v \<Rightarrow> v # nexts i evs)"
  by (simp add: nexts_def map_filter_def split: option.splits)

lemma completion_append [simp]: "completion i (tr @ evs) = completion i tr @ completion i evs"
  by (simp add: completion_def)

lemma completion_Nil [simp]: "completion i [] = []"
  by (simp add: completion_def)

lemma completion_Cons: "completion i (ev # evs) = (if completes i ev then ev # completion i evs else completion i evs)"
  by (simp add: completion_def)

lemma foreign_nexts: "\<forall>ev \<in> set evs. about ev \<noteq> Some i \<Longrightarrow> nexts i evs = []"
proof (induction evs)
  case Nil then show ?case by simp
next
  case (Cons ev evs)
  then show ?case by (cases ev) (auto simp: nexts_Cons)
qed

lemma foreign_completion: "\<forall>ev \<in> set evs. about ev \<noteq> Some i \<Longrightarrow> completion i evs = []"
proof (induction evs)
  case Nil then show ?case by simp
next
  case (Cons ev evs)
  then show ?case by (cases ev) (auto simp: completion_Cons)
qed

lemma foreign_task: "\<forall>ev \<in> set evs. about ev \<noteq> Some i \<Longrightarrow> Invoked_task i \<notin> set evs"
  by auto

lemma foreign_closed: "\<forall>ev \<in> set evs. about ev \<noteq> Some i \<Longrightarrow> Closed_done i \<notin> set evs"
  by auto

lemma foreign_count: "\<forall>ev \<in> set evs. about ev \<noteq> Some i \<Longrightarrow> count_list evs (Invoked_task i) = 0"
  by (induction evs) auto

lemma settles_frame:
  assumes "settles fs tr i res er" "ext (fs ! j) f'" "nexts i evs = []"
  shows "settles (fs[j := f']) (tr @ evs) i res er"
proof -
  have t: "task (fs[j := f'] ! i) = task (fs ! i)"
    using assms(2) by (simp add: nth_update_any ext_def)
  have p: "done_ch (fs[j := f'] ! f) \<and> err (fs[j := f'] ! f) = err (fs ! f) \<and>
      result (fs[j := f'] ! f) = result (fs ! f)" if "done_ch (fs ! f)" for f
    using assms(2) that by (simp add: nth_update_any ext_def)
  show ?thesis
  proof (cases "task (fs ! i)")
    case (Supplied out)
    with assms(1) show ?thesis by (simp add: settles_def t)
  next
    case (Closure f k)
    with assms(1) have d: "done_ch (fs ! f)" by (simp add: settles_def)
    from assms(1) Closure show ?thesis
      unfolding settles_def t using p [OF d] assms(3) by (auto split: option.splits)
  qed
qed

lemma called_frame:
  assumes "called fs tr i" "ext (fs ! j) f'" "nexts i evs = []"
  shows "called (fs[j := f']) (tr @ evs) i"
proof (cases "nexts i tr = []")
  case True
  then show ?thesis using assms(3) by (simp add: called_def)
next
  case False
  with assms(1) obtain f k where f: "task (fs ! i) = Closure f k" "done_ch (fs ! f)"
    "err (fs ! f) = None" "nexts i tr = [result (fs ! f)]"
    by (auto simp: called_def)
  have t: "task (fs[j := f'] ! i) = task (fs ! i)"
    using assms(2) by (simp add: nth_update_any ext_def)
  have "done_ch (fs[j := f'] ! f) \<and> err (fs[j := f'] ! f) = err (fs ! f) \<and>
      result (fs[j := f'] ! f) = result (fs ! f)"
    using assms(2) f(2) by (simp add: nth_update_any ext_def)
  with f t assms(3) show ?thesis by (auto simp: called_def)
qed

lemma linked_frame:
  assumes "linked fs tr f w" "ext (fs ! j) f'" "\<forall>i k. w = Link i k \<longrightarrow> nexts i evs = []"
  shows "linked (fs[j := f']) (tr @ evs) f w"
  using assms
  by (auto simp: linked_def ext_def nth_update_any split: caller.splits)

lemma tinv_frame:
  assumes "tinv fs tr q" "ext (fs ! j) f'" "owner q \<noteq> Some j"
    and "\<forall>ev \<in> set evs. about ev = None \<or> about ev \<noteq> owner q"
  shows "tinv (fs[j := f']) (tr @ evs) q"
proof -
  have ev: "nexts i evs = []" "completion i evs = []" "Invoked_task i \<notin> set evs"
    if "owner q = Some i" for i
    using assms(4) that
    by (auto intro!: foreign_nexts foreign_completion)
  show ?thesis
  proof (cases q)
    case (Go_task i)
    then show ?thesis using assms ev [of i] by (auto simp: tinv_def)
  next
    case (Go_lock i res er)
    then show ?thesis using assms ev [of i] by (auto simp: tinv_def intro: settles_frame)
  next
    case (Go_fail i ks er)
    then show ?thesis using assms ev [of i] by (auto simp: tinv_def nth_update_any)
  next
    case (Go_succ i ks res)
    then show ?thesis using assms ev [of i] by (auto simp: tinv_def nth_update_any)
  next
    case (Result_enter f w)
    then show ?thesis using assms ev
      by (cases w) (auto simp: tinv_def intro!: linked_frame)
  next
    case (Result_start f w)
    then show ?thesis using assms ev
      by (cases w) (auto simp: tinv_def intro!: linked_frame)
  next
    case (Result_wait f w)
    then show ?thesis using assms ev
      by (cases w) (auto simp: tinv_def ext_def nth_update_any intro!: linked_frame)
  next
    case (Result_read f w)
    then show ?thesis using assms ev
      by (cases w) (auto simp: tinv_def ext_def nth_update_any intro!: linked_frame)
  next
    case (Result_done f v e)
    then show ?thesis using assms by (auto simp: tinv_def ext_def nth_update_any)
  next
    case (Closure_test i k v e)
    then show ?thesis using assms ev [of i]
      by (auto simp: tinv_def ext_def nth_update_any)
  next
    case (State_done i s)
    then show ?thesis using assms by (auto simp: tinv_def ext_def nth_update_any)
  qed (simp_all add: tinv_def)
qed

lemma finv_frame:
  assumes "finv fs tr i" "ext (fs ! j) f'" "i \<noteq> j"
    and "\<forall>ev \<in> set evs. about ev \<noteq> Some i"
  shows "finv (fs[j := f']) (tr @ evs) i"
proof -
  have ev: "nexts i evs = []" "completion i evs = []" "Invoked_task i \<notin> set evs"
    "Closed_done i \<notin> set evs" "count_list evs (Invoked_task i) = 0"
    using assms(4) by (auto intro!: foreign_nexts foreign_completion foreign_count)
  have same: "fs[j := f'] ! i = fs ! i"
    using assms(3) by (simp add: nth_update_any)
  have st: "settles (fs[j := f']) (tr @ evs) i res er" if "settles fs tr i res er" for res er
    using that assms(2) ev(1) by (rule settles_frame)
  have cl: "called (fs[j := f']) (tr @ evs) i" if "called fs tr i"
    using that assms(2) ev(1) by (rule called_frame)
  show ?thesis
    using assms(1) ev st cl unfolding finv_def same
    by (simp only: nexts_append completion_append set_append count_list_append Un_iff append_Nil2 add_0_right)
      blast
qed

lemma same_refl [simp]: "same f f"
  by (simp add: same_def)

lemma same_ext: "same f f' \<Longrightarrow> ext f f'"
  by (simp add: same_def ext_def)

lemma about_subject: "about ev = None \<or> about ev = Some (subject ev)"
  by (cases ev) auto

lemma immediate_nexts: "\<forall>ev \<in> set evs. about ev = None \<Longrightarrow> nexts i evs = []"
  by (rule foreign_nexts) auto

lemma immediate_completion: "\<forall>ev \<in> set evs. about ev = None \<Longrightarrow> completion i evs = []"
  by (rule foreign_completion) auto

lemma immediate_count: "\<forall>ev \<in> set evs. about ev = None \<Longrightarrow> count_list evs (Invoked_task i) = 0"
  by (rule foreign_count) auto

lemma same_nth:
  assumes "same (fs ! j) f'"
  shows "task (fs[j := f'] ! x) = task (fs ! x)" "result (fs[j := f'] ! x) = result (fs ! x)"
    "err (fs[j := f'] ! x) = err (fs ! x)" "state (fs[j := f'] ! x) = state (fs ! x)"
    "done_ch (fs[j := f'] ! x) = done_ch (fs ! x)"
    "state (fs ! x) = Fulfilled \<Longrightarrow> onSuccess (fs[j := f'] ! x) = onSuccess (fs ! x)"
    "state (fs ! x) = Rejected \<Longrightarrow> onFailure (fs[j := f'] ! x) = onFailure (fs ! x)"
  using assms by (auto simp: same_def nth_update_any)

lemma tinv_same:
  assumes "tinv fs tr q" "same (fs ! j) f'" "\<forall>ev \<in> set evs. about ev = None"
  shows "tinv (fs[j := f']) (tr @ evs) q"
proof -
  note ev = immediate_nexts [OF assms(3)] immediate_completion [OF assms(3)]
  have nt: "Invoked_task i \<notin> set evs" for i using assms(3) by auto
  note f = same_nth [OF assms(2)]
  show ?thesis
  proof (cases q)
    case (Go_fail i ks er)
    then show ?thesis using assms(1) ev f(7) [of i]
      unfolding tinv_def f(1-5) by auto
  next
    case (Go_succ i ks res)
    then show ?thesis using assms(1) ev f(6) [of i]
      unfolding tinv_def f(1-5) by auto
  qed (use assms(1) ev nt in \<open>simp_all add: tinv_def linked_def settles_def f(1-5)
         split: caller.splits task.splits option.splits\<close>)
qed

lemma finv_same:
  assumes "finv fs tr i" "same (fs ! j) f'" "\<forall>ev \<in> set evs. about ev = None"
  shows "finv (fs[j := f']) (tr @ evs) i"
proof (cases "i = j")
  case False
  then show ?thesis using assms by (auto intro!: finv_frame same_ext)
next
  case True
  note ev = immediate_nexts [OF assms(3)] immediate_completion [OF assms(3)] immediate_count [OF assms(3)]
  have nt: "Invoked_task i \<notin> set evs" "Closed_done i \<notin> set evs" for i using assms(3) by auto
  have st: "settles (fs[j := f']) (tr @ evs) i res er" if "settles fs tr i res er" for res er
    using that same_ext [OF assms(2)] ev(1) by (rule settles_frame)
  have cl: "called (fs[j := f']) (tr @ evs) i" if "called fs tr i"
    using that same_ext [OF assms(2)] ev(1) by (rule called_frame)
  have f: "task (fs[j := f'] ! i) = task (fs ! i)" "result (fs[j := f'] ! i) = result (fs ! i)"
    "err (fs[j := f'] ! i) = err (fs ! i)" "state (fs[j := f'] ! i) = state (fs ! i)"
    "done_ch (fs[j := f'] ! i) = done_ch (fs ! i)"
    "state (fs ! i) = Fulfilled \<Longrightarrow> onSuccess (fs[j := f'] ! i) = onSuccess (fs ! i)"
    "state (fs ! i) = Rejected \<Longrightarrow> onFailure (fs[j := f'] ! i) = onFailure (fs ! i)"
    using assms(2) True by (auto simp: same_def nth_update_any)
  show ?thesis
    using assms(1) ev nt st cl f(6,7) unfolding finv_def f(1-5)
    by (simp only: nexts_append completion_append set_append count_list_append Un_iff append_Nil2 add_0_right)
      (simp, blast)
qed

lemma sound_set_pc: "sound c \<Longrightarrow> tinv (futs c) (trace c) p \<Longrightarrow> sound (set_pc t p c)"
  by (auto simp: sound_def dest!: in_set_updateD)

lemma sound_spawn: "sound c \<Longrightarrow> tinv (futs c) (trace c) p \<Longrightarrow> sound (spawn p c)"
  by (auto simp: sound_def)

lemma sound_same:
  assumes "sound c" "j < length (futs c)" "same (futs c ! j) f'"
    and "\<forall>ev \<in> set evs. about ev = None \<and> subject ev = j"
    and "futs c' = (futs c)[j := f']" "threads c' = (threads c)[t := p]" "trace c' = trace c @ evs"
    and "tinv (futs c') (trace c') p"
  shows "sound c'"
proof -
  have ev: "\<forall>ev \<in> set evs. about ev = None" using assms(4) by simp
  have "tinv (futs c') (trace c') q" if "q \<in> set (threads c')" for q
  proof (cases "q = p")
    case True then show ?thesis using assms(8) by simp
  next
    case False
    with that assms(6) have "q \<in> set (threads c)" by (auto dest!: in_set_updateD)
    with assms(1) have "tinv (futs c) (trace c) q" by (simp add: sound_def)
    from tinv_same [OF this assms(3) ev] show ?thesis by (simp add: assms(5,7))
  qed
  moreover have "finv (futs c') (trace c') i" if "i < length (futs c')" for i
  proof -
    from that assms(1,5) have "finv (futs c) (trace c) i" by (simp add: sound_def)
    from finv_same [OF this assms(3) ev] show ?thesis by (simp add: assms(5,7))
  qed
  moreover have "\<forall>ev \<in> set (trace c'). subject ev < length (futs c')"
    using assms(1,2,4) by (auto simp: sound_def assms(5,7))
  ultimately show ?thesis by (simp add: sound_def)
qed

lemma sound_owner:
  assumes "own c" "sound c" "t < length (threads c)" "j < length (futs c)"
    and "owner (threads c ! t) = Some j \<or> state (futs c ! j) = Pending"
    and "ext (futs c ! j) f'" "\<forall>ev \<in> set evs. subject ev = j"
    and "futs c' = (futs c)[j := f']" "threads c' = (threads c)[t := p] @ qs"
      "trace c' = trace c @ evs"
    and "tinv (futs c') (trace c') p" "\<forall>q \<in> set qs. tinv (futs c') (trace c') q"
      "finv (futs c') (trace c') j"
  shows "sound c'"
proof -
  have "tinv (futs c') (trace c') q" if "q \<in> set (threads c')" for q
  proof (cases "q = p \<or> q \<in> set qs")
    case True then show ?thesis using assms(11,12) by auto
  next
    case False
    with that assms(9) have q: "q \<in> set ((threads c)[t := p])" "q \<noteq> p" by auto
    then have qs: "q \<in> set (threads c)" by (auto dest!: in_set_updateD)
    have no: "owner q \<noteq> Some j"
    proof (cases "owner (threads c ! t) = Some j")
      case True
      from uniq_others [OF _ assms(3) True q(1)] assms(1) q(2) show ?thesis
        by (simp add: own_def)
    next
      case False
      with assms(5) have "state (futs c ! j) = Pending" by simp
      from own_no_owner [OF assms(1,4) this qs] show ?thesis .
    qed
    from qs assms(2) have "tinv (futs c) (trace c) q" by (simp add: sound_def)
    moreover have "\<forall>ev \<in> set evs. about ev = None \<or> about ev \<noteq> owner q"
      using assms(7) no about_subject by metis
    ultimately have "tinv ((futs c)[j := f']) (trace c @ evs) q"
      using assms(6) no by (intro tinv_frame)
    then show ?thesis by (simp add: assms(8,10))
  qed
  moreover have "finv (futs c') (trace c') i" if "i < length (futs c')" for i
  proof (cases "i = j")
    case True then show ?thesis using assms(13) by simp
  next
    case False
    from that assms(2,8) have "finv (futs c) (trace c) i" by (simp add: sound_def)
    moreover have "\<forall>ev \<in> set evs. about ev \<noteq> Some i"
      using assms(7) False about_subject by (metis option.distinct(1) option.inject)
    ultimately have "finv ((futs c)[j := f']) (trace c @ evs) i"
      using assms(6) False by (intro finv_frame)
    then show ?thesis by (simp add: assms(8,10))
  qed
  moreover have "\<forall>ev \<in> set (trace c'). subject ev < length (futs c')"
    using assms(2,4,7) by (auto simp: sound_def assms(8,10))
  ultimately show ?thesis by (simp add: sound_def)
qed

lemma subject_about: "\<forall>ev \<in> set tr. subject ev \<noteq> i \<Longrightarrow> \<forall>ev \<in> set tr. about ev \<noteq> Some i"
  using about_subject by (metis option.distinct(1) option.inject)

lemma subject_nexts: "\<forall>ev \<in> set tr. subject ev \<noteq> i \<Longrightarrow> nexts i tr = []"
  by (rule foreign_nexts) (rule subject_about)

lemma subject_completion: "\<forall>ev \<in> set tr. subject ev \<noteq> i \<Longrightarrow> completion i tr = []"
  by (rule foreign_completion) (rule subject_about)

lemma subject_count: "\<forall>ev \<in> set tr. subject ev \<noteq> i \<Longrightarrow> count_list tr (Invoked_task i) = 0"
  by (rule foreign_count) (rule subject_about)

lemma settles_append:
  assumes "settles fs tr i res er" "i < length fs" "parents fs"
  shows "settles (fs @ [g]) tr i res er"
proof (cases "task (fs ! i)")
  case (Supplied out)
  then show ?thesis using assms by (simp add: settles_def nth_append)
next
  case (Closure f k)
  with assms(2,3) have "f < length fs" by (auto simp: parents_def)
  then show ?thesis using assms Closure
    by (auto simp: settles_def nth_append split: option.splits)
qed

lemma called_append:
  assumes "called fs tr i" "i < length fs" "parents fs"
  shows "called (fs @ [g]) tr i"
proof (cases "nexts i tr = []")
  case True
  then show ?thesis by (simp add: called_def)
next
  case False
  with assms(1) obtain f k where f: "task (fs ! i) = Closure f k" "done_ch (fs ! f)"
    "err (fs ! f) = None" "nexts i tr = [result (fs ! f)]"
    by (auto simp: called_def)
  with assms(2,3) have "f < length fs" by (auto simp: parents_def)
  with f assms(2) show ?thesis by (auto simp: called_def nth_append)
qed

lemma linked_append:
  assumes "linked fs tr f w" "\<forall>i k. w = Link i k \<longrightarrow> i < length fs"
  shows "linked (fs @ [g]) tr f w"
  using assms by (auto simp: linked_def nth_append split: caller.splits)

lemma owner_Link: "owner (Result_enter f w) = Some i \<Longrightarrow> \<exists>k. w = Link i k"
  "owner (Result_start f w) = Some i \<Longrightarrow> \<exists>k. w = Link i k"
  "owner (Result_wait f w) = Some i \<Longrightarrow> \<exists>k. w = Link i k"
  "owner (Result_read f w) = Some i \<Longrightarrow> \<exists>k. w = Link i k"
  by (cases w; simp)+

lemma tinv_append:
  assumes "tinv fs tr q" "thread_ok fs q" "parents fs"
  shows "tinv (fs @ [g]) tr q"
proof (cases q)
  case (Go_lock i res er)
  then show ?thesis using assms by (auto simp: tinv_def thread_ok_def intro!: settles_append)
next
  case (Go_fail i ks er)
  then show ?thesis using assms by (auto simp: tinv_def thread_ok_def nth_append)
next
  case (Go_succ i ks res)
  then show ?thesis using assms by (auto simp: tinv_def thread_ok_def nth_append)
next
  case (Result_enter f w)
  then show ?thesis using assms(1,2)
    by (cases w) (auto simp: tinv_def thread_ok_def intro!: linked_append)
next
  case (Result_start f w)
  then show ?thesis using assms(1,2)
    by (cases w) (auto simp: tinv_def thread_ok_def intro!: linked_append)
next
  case (Result_wait f w)
  then show ?thesis using assms(1,2)
    by (cases w) (auto simp: tinv_def thread_ok_def nth_append intro!: linked_append)
next
  case (Result_read f w)
  then show ?thesis using assms(1,2)
    by (cases w) (auto simp: tinv_def thread_ok_def nth_append intro!: linked_append)
next
  case (Result_done f v e)
  then show ?thesis using assms(1,2) by (auto simp: tinv_def thread_ok_def nth_append)
next
  case (Closure_test i k v e)
  with assms(1) obtain f where f: "task (fs ! i) = Closure f k" "done_ch (fs ! f)"
    "v = result (fs ! f)" "e = err (fs ! f)" "nexts i tr = []"
    by (auto simp: tinv_def)
  from assms(2) Closure_test have i: "i < length fs" by (simp add: thread_ok_def)
  with f(1) assms(3) have "f < length fs" by (auto simp: parents_def)
  with f i Closure_test show ?thesis by (auto simp: tinv_def nth_append)
next
  case (State_done i s)
  then show ?thesis using assms(1,2) by (auto simp: tinv_def thread_ok_def nth_append)
qed (use assms(1) in \<open>simp_all add: tinv_def\<close>)

lemma finv_append:
  assumes "finv fs tr i" "i < length fs" "parents fs"
  shows "finv (fs @ [g]) tr i"
proof -
  have same: "(fs @ [g]) ! i = fs ! i" using assms(2) by (simp add: nth_append)
  have st: "settles (fs @ [g]) tr i res er" if "settles fs tr i res er" for res er
    using that assms(2,3) by (rule settles_append)
  have cl: "called (fs @ [g]) tr i" if "called fs tr i"
    using that assms(2,3) by (rule called_append)
  show ?thesis using assms(1) st cl unfolding finv_def same by blast
qed

lemma finv_fresh:
  assumes "\<forall>ev \<in> set tr. subject ev < length fs"
    and "state g = Pending" "err g = None" "\<not> done_ch g" "\<forall>f k. task g = Closure f k \<longrightarrow> result g = None"
  shows "finv (fs @ [g]) tr (length fs)"
proof -
  have "\<forall>ev \<in> set tr. subject ev \<noteq> length fs" using assms(1) by auto
  note ev = subject_nexts [OF this] subject_completion [OF this] subject_count [OF this]
  have "Invoked_task (length fs) \<notin> set tr" "Closed_done (length fs) \<notin> set tr"
    using assms(1) by auto
  then show ?thesis using ev assms(2-) by (simp add: finv_def terminal_def called_def)
qed

lemma sound_new:
  assumes "sound c" "own c" "futs c = fs" "\<And>p k. tk = Closure p k \<Longrightarrow> z = None"
  shows "sound (c\<lparr>futs := fs @ [NewFuture z tk]\<rparr>)"
proof -
  let ?g = "NewFuture z tk"
  have p: "parents fs" using assms(2,3) by (simp add: own_def)
  have "tinv (fs @ [?g]) (trace c) q" if "q \<in> set (threads c)" for q
    using that assms(1,2,3) p by (auto simp: sound_def own_def intro!: tinv_append)
  moreover have "finv (fs @ [?g]) (trace c) i" if "i < Suc (length fs)" for i
  proof (cases "i = length fs")
    case True
    show ?thesis unfolding True
      using assms(1,3,4) by (intro finv_fresh) (auto simp: sound_def NewFuture_def)
  next
    case False
    with that have "i < length fs" by simp
    with assms(1,3) p show ?thesis by (auto simp: sound_def intro!: finv_append)
  qed
  moreover have "\<forall>ev \<in> set (trace c). subject ev < Suc (length fs)"
    using assms(1,3) by (auto simp: sound_def less_Suc_eq)
  ultimately show ?thesis by (simp add: sound_def)
qed

lemma sound_init: "sound init"
  by (simp add: sound_def init_def)

lemma sound_call: "sound c \<Longrightarrow> tinv (futs c) (trace c) p \<Longrightarrow> sound (call i p c)"
  by (simp add: call_def sound_spawn)

section \<open>The trace invariant is invariant\<close>

lemma sound_thread: "sound c \<Longrightarrow> t < length (threads c) \<Longrightarrow> tinv (futs c) (trace c) (threads c ! t)"
  by (simp add: sound_def)

lemma sound_fut: "sound c \<Longrightarrow> i < length (futs c) \<Longrightarrow> finv (futs c) (trace c) i"
  by (simp add: sound_def)

lemma sound_Start:
  assumes "own c" "sound c" "t < length (threads c)" "i < length (futs c)"
    and ret: "owner ret = owner (threads c ! t)"
      "\<And>fs. state (fs ! i) \<noteq> Pending \<Longrightarrow> tinv fs (trace c) (threads c ! t) \<Longrightarrow> tinv fs (trace c) ret"
  shows "sound (Start t ret i c)"
proof -
  consider "mutex (futs c ! i)" | "\<not> mutex (futs c ! i)" "state (futs c ! i) \<noteq> Pending"
    | "\<not> mutex (futs c ! i)" "state (futs c ! i) = Pending"
    by blast
  then show ?thesis
  proof cases
    case 1
    then show ?thesis using assms(2) by (simp add: Start_def)
  next
    case 2
    have "tinv (futs c) (trace c) ret"
      using sound_thread [OF assms(2,3)] ret(2) 2 by simp
    then show ?thesis
      using 2 assms(1,2,4) own_fut [OF assms(1,4)]
      by (auto simp: Start_def Start_locked_def Let_def fut_ok_def set_fut_def intro!: sound_set_pc)
  next
    case 3
    let ?f = "(futs c ! i)\<lparr>started := True, state := Running\<rparr>"
    from 3 own_fut [OF assms(1,4)] have ns: "\<not> started (futs c ! i)" "\<not> done_ch (futs c ! i)"
      by (auto simp: fut_ok_def)
    have eq: "Start t ret i c = spawn (Go_task i) (set_pc t ret (set_fut i ?f c))"
      using 3 ns by (simp add: Start_def Start_locked_def Let_def)
    note fi = sound_fut [OF assms(2,4)]
    have e: "ext (futs c ! i) ?f" using 3 ns by (simp add: ext_def terminal_def)
    have "owner (threads c ! t) \<noteq> Some i"
      using own_no_owner [OF assms(1,4) _ nth_mem [OF assms(3)]] 3 by simp
    from tinv_frame [OF sound_thread [OF assms(2,3)] e this, of "[]"]
    have old: "tinv ((futs c)[i := ?f]) (trace c) (threads c ! t)" by simp
    have cl: "called ((futs c)[i := ?f]) (trace c) i"
      using fi 3 by (simp add: finv_def called_def)
    show ?thesis
      unfolding eq
    proof (rule sound_owner [OF assms(1,2,3,4), where f' = ?f and evs = "[]" and p = ret and qs = "[Go_task i]"])
      show "owner (threads c ! t) = Some i \<or> state (futs c ! i) = Pending" using 3 by simp
      show "ext (futs c ! i) ?f" by (rule e)
      show "tinv (futs (spawn (Go_task i) (set_pc t ret (set_fut i ?f c))))
          (trace (spawn (Go_task i) (set_pc t ret (set_fut i ?f c)))) ret"
        using ret(2) [of "(futs c)[i := ?f]"] old assms(4) by simp
      show "finv (futs (spawn (Go_task i) (set_pc t ret (set_fut i ?f c))))
          (trace (spawn (Go_task i) (set_pc t ret (set_fut i ?f c)))) i"
        using fi 3 assms(4) cl by (simp add: finv_def terminal_def)
      show "\<forall>q\<in>set [Go_task i]. tinv (futs (spawn (Go_task i) (set_pc t ret (set_fut i ?f c))))
          (trace (spawn (Go_task i) (set_pc t ret (set_fut i ?f c)))) q"
        using fi 3 by (simp add: tinv_def finv_def)
    qed simp_all
  qed
qed

lemma sound_Go_task:
  assumes "own c" "sound c" "t < length (threads c)" "threads c ! t = Go_task i"
  shows "sound (run t (Go_task i) c)"
proof -
  from own_thread [OF assms(1,3)] assms(4)
  have i: "i < length (futs c)" "state (futs c ! i) = Running"
    by (auto simp: thread_ok_def)
  from sound_thread [OF assms(2,3)] assms(4)
  have ti: "Invoked_task i \<notin> set (trace c)" "nexts i (trace c) = []"
    by (auto simp: tinv_def)
  note fi = sound_fut [OF assms(2) i(1)]
  have fi': "finv (futs c) (trace c @ [Invoked_task i]) i"
    using fi ti i by (simp add: finv_def terminal_def nexts_Cons completion_Cons called_def
        count_list_0_iff)
  let ?p = "case task (futs c ! i) of
        Supplied None \<Rightarrow> Hung
      | Supplied (Some (res, er)) \<Rightarrow> Go_lock i res er
      | Closure f nextTask \<Rightarrow> Result_enter f (Link i nextTask)"
  have eq: "run t (Go_task i) c = set_pc t ?p (emit (Invoked_task i) c)"
    by (simp add: Let_def split: task.splits option.splits)
  show ?thesis
    unfolding eq
  proof (rule sound_owner [OF assms(1,2,3) i(1), where f' = "futs c ! i" and evs = "[Invoked_task i]"
        and p = ?p and qs = "[]"])
    show "tinv (futs (set_pc t ?p (emit (Invoked_task i) c))) (trace (set_pc t ?p (emit (Invoked_task i) c))) ?p"
      using ti by (auto simp: tinv_def settles_def linked_def nexts_Cons split: task.splits option.splits)
    show "finv (futs (set_pc t ?p (emit (Invoked_task i) c))) (trace (set_pc t ?p (emit (Invoked_task i) c))) i"
      using fi' by simp
  qed (use assms(4) in simp_all)
qed

lemma settles_self:
  assumes "settles fs tr i res er" "task f' = task (fs ! i)" "parents fs" "i < length fs"
  shows "settles (fs[i := f']) tr i res er"
proof (cases "task (fs ! i)")
  case (Supplied out)
  then show ?thesis using assms by (simp add: settles_def)
next
  case (Closure f k)
  with assms(3,4) have "f \<noteq> i" by (auto simp: parents_def)
  then show ?thesis using assms Closure
    by (auto simp: settles_def split: option.splits)
qed

lemma called_self:
  assumes "called fs tr i" "task f' = task (fs ! i)" "parents fs" "i < length fs"
  shows "called (fs[i := f']) tr i"
proof (cases "nexts i tr = []")
  case True
  then show ?thesis by (simp add: called_def)
next
  case False
  with assms(1) obtain f k where f: "task (fs ! i) = Closure f k" "done_ch (fs ! f)"
    "err (fs ! f) = None" "nexts i tr = [result (fs ! f)]"
    by (auto simp: called_def)
  with assms(3,4) have "f \<noteq> i" by (auto simp: parents_def)
  with f assms(2,4) show ?thesis by (auto simp: called_def)
qed

lemma sound_complete:
  assumes "own c" "sound c" "t < length (threads c)" "threads c ! t = Go_lock i res er"
  shows "sound (run t (Go_lock i res er) c)"
proof (cases "mutex (futs c ! i)")
  case True
  then show ?thesis using assms(2) by simp
next
  case False
  from own_thread [OF assms(1,3)] assms(4)
  have i: "i < length (futs c)" "state (futs c ! i) = Running" "\<not> done_ch (futs c ! i)"
    by (auto simp: thread_ok_def)
  from sound_thread [OF assms(2,3)] assms(4)
  have ti: "settles (futs c) (trace c) i res er"
    by (auto simp: tinv_def)
  note fi = sound_fut [OF assms(2) i(1)]
  from assms(1) have pa: "parents (futs c)" by (simp add: own_def)
  let ?f = "futs c ! i"
  have cl: "called ((futs c)[i := g]) (trace c) i" if "task g = task ?f" for g
    using fi that pa i(1) by (intro called_self) (simp_all add: finv_def)
  show ?thesis
  proof (cases er)
    case None
    let ?g = "?f\<lparr>result := res, state := Fulfilled\<rparr>"
    let ?p = "Go_succ i (onSuccess ?f) res"
    have eq: "run t (Go_lock i res er) c = set_pc t ?p (set_fut i ?g c)"
      using False i None by (simp add: complete_def Let_def)
    have st: "settles ((futs c)[i := ?g]) (trace c) i res None"
      using ti None pa i(1) by (intro settles_self) simp_all
    show ?thesis
      unfolding eq
    proof (rule sound_owner [OF assms(1,2,3) i(1), where f' = ?g and evs = "[]" and p = ?p and qs = "[]"])
      show "ext ?f ?g" using i by (simp add: ext_def terminal_def)
      show "tinv (futs (set_pc t ?p (set_fut i ?g c))) (trace (set_pc t ?p (set_fut i ?g c))) ?p"
        using fi i by (simp add: tinv_def finv_def terminal_def)
      show "finv (futs (set_pc t ?p (set_fut i ?g c))) (trace (set_pc t ?p (set_fut i ?g c))) i"
        using fi i st cl [of ?g] by (simp add: finv_def terminal_def)
    qed (use assms(4) in simp_all)
  next
    case (Some x)
    let ?g = "?f\<lparr>err := er, state := Rejected\<rparr>"
    let ?p = "Go_fail i (onFailure ?f) er"
    have eq: "run t (Go_lock i res er) c = set_pc t ?p (set_fut i ?g c)"
      using False i Some by (simp add: complete_def Let_def)
    have st: "settles ((futs c)[i := ?g]) (trace c) i res er"
      using ti pa i(1) by (intro settles_self) simp_all
    show ?thesis
      unfolding eq
    proof (rule sound_owner [OF assms(1,2,3) i(1), where f' = ?g and evs = "[]" and p = ?p and qs = "[]"])
      show "ext ?f ?g" using i by (simp add: ext_def terminal_def)
      show "tinv (futs (set_pc t ?p (set_fut i ?g c))) (trace (set_pc t ?p (set_fut i ?g c))) ?p"
        using fi i by (simp add: tinv_def finv_def terminal_def)
      show "finv (futs (set_pc t ?p (set_fut i ?g c))) (trace (set_pc t ?p (set_fut i ?g c))) i"
        using fi i st Some cl [of ?g] by (auto simp: finv_def terminal_def)
    qed (use assms(4) in simp_all)
  qed
qed

lemma sound_fire_failure:
  assumes "own c" "sound c" "t < length (threads c)" "threads c ! t = Go_fail i (k # ks) er"
  shows "sound (run t (Go_fail i (k # ks) er) c)"
proof -
  from own_thread [OF assms(1,3)] assms(4)
  have i: "i < length (futs c)" "\<not> done_ch (futs c ! i)"
    by (auto simp: thread_ok_def)
  from sound_thread [OF assms(2,3)] assms(4)
  obtain pre where ti: "state (futs c ! i) = Rejected" "er = err (futs c ! i)"
    "onFailure (futs c ! i) = pre @ k # ks" "list_all cb_returns pre"
    "completion i (trace c) = map (\<lambda>k. Fired_failure i k er) pre"
    by (auto simp: tinv_def)
  note fi = sound_fut [OF assms(2) i(1)]
  let ?ev = "Fired_failure i k er"
  let ?p = "if cb_returns k then Go_fail i ks er else Hung"
  have st: "settles (futs c) (trace c @ [?ev]) i res e" if "settles (futs c) (trace c) i res e" for res e
    using settles_frame [OF that, of i "futs c ! i" "[?ev]"] by (simp add: nexts_Cons)
  have cl: "called (futs c) (trace c @ [?ev]) i"
    using called_frame [of "futs c" "trace c" i i "futs c ! i" "[?ev]"] fi
    by (simp add: nexts_Cons finv_def)
  show ?thesis
    unfolding run.simps
  proof (rule sound_owner [OF assms(1,2,3) i(1), where f' = "futs c ! i" and evs = "[?ev]"
        and p = ?p and qs = "[]"])
    show "tinv (futs (set_pc t ?p (emit ?ev c))) (trace (set_pc t ?p (emit ?ev c))) ?p"
      using ti by (auto simp: tinv_def completion_Cons intro!: exI [of _ "pre @ [k]"])
    show "finv (futs (set_pc t ?p (emit ?ev c))) (trace (set_pc t ?p (emit ?ev c))) i"
      using fi i ti st cl by (auto simp: finv_def terminal_def nexts_Cons)
  qed (use assms(4) in simp_all)
qed

lemma sound_fire_success:
  assumes "own c" "sound c" "t < length (threads c)" "threads c ! t = Go_succ i (k # ks) res"
  shows "sound (run t (Go_succ i (k # ks) res) c)"
proof -
  from own_thread [OF assms(1,3)] assms(4)
  have i: "i < length (futs c)" "\<not> done_ch (futs c ! i)"
    by (auto simp: thread_ok_def)
  from sound_thread [OF assms(2,3)] assms(4)
  obtain pre where ti: "state (futs c ! i) = Fulfilled" "res = result (futs c ! i)"
    "onSuccess (futs c ! i) = pre @ k # ks" "list_all cb_returns pre"
    "completion i (trace c) = map (\<lambda>k. Fired_success i k res) pre"
    by (auto simp: tinv_def)
  note fi = sound_fut [OF assms(2) i(1)]
  let ?ev = "Fired_success i k res"
  let ?p = "if cb_returns k then Go_succ i ks res else Hung"
  have st: "settles (futs c) (trace c @ [?ev]) i r e" if "settles (futs c) (trace c) i r e" for r e
    using settles_frame [OF that, of i "futs c ! i" "[?ev]"] by (simp add: nexts_Cons)
  have cl: "called (futs c) (trace c @ [?ev]) i"
    using called_frame [of "futs c" "trace c" i i "futs c ! i" "[?ev]"] fi
    by (simp add: nexts_Cons finv_def)
  show ?thesis
    unfolding run.simps
  proof (rule sound_owner [OF assms(1,2,3) i(1), where f' = "futs c ! i" and evs = "[?ev]"
        and p = ?p and qs = "[]"])
    show "tinv (futs (set_pc t ?p (emit ?ev c))) (trace (set_pc t ?p (emit ?ev c))) ?p"
      using ti by (auto simp: tinv_def completion_Cons intro!: exI [of _ "pre @ [k]"])
    show "finv (futs (set_pc t ?p (emit ?ev c))) (trace (set_pc t ?p (emit ?ev c))) i"
      using fi i ti st cl by (auto simp: finv_def terminal_def nexts_Cons)
  qed (use assms(4) in simp_all)
qed

lemma sound_close:
  assumes "own c" "sound c" "t < length (threads c)"
    and "threads c ! t = Go_fail i [] er \<or> threads c ! t = Go_succ i [] res"
  shows "sound (close_done t i c)"
proof -
  from own_thread [OF assms(1,3)] assms(4)
  have i: "i < length (futs c)" "\<not> done_ch (futs c ! i)" "owner (threads c ! t) = Some i"
    by (auto simp: thread_ok_def)
  let ?f = "futs c ! i"
  let ?g = "?f\<lparr>done_ch := True\<rparr>"
  let ?ev = "Closed_done i"
  let ?c = "set_pc t (Go_done i) (emit ?ev (set_fut i ?g c))"
  have eq: "close_done t i c = ?c"
    using i by (simp add: close_done_def Let_def)
  note fi = sound_fut [OF assms(2) i(1)]
  from assms(1) have pa: "parents (futs c)" by (simp add: own_def)
  have st: "settles ((futs c)[i := ?g]) (trace c @ [?ev]) i r e" if "settles (futs c) (trace c) i r e" for r e
  proof -
    from that pa i(1) have "settles ((futs c)[i := ?g]) (trace c) i r e"
      by (intro settles_self) simp_all
    from settles_frame [OF this, of i "?g" "[?ev]"] i(1) show ?thesis
      by (simp add: nexts_Cons)
  qed
  have cl: "called ((futs c)[i := ?g]) (trace c @ [?ev]) i"
  proof -
    from fi pa i(1) have "called ((futs c)[i := ?g]) (trace c) i"
      by (intro called_self) (simp_all add: finv_def)
    from called_frame [OF this, of i "?g" "[?ev]"] i(1) show ?thesis
      by (simp add: nexts_Cons)
  qed
  from sound_thread [OF assms(2,3)] assms(4)
  have ti: "(state ?f = Rejected \<and> list_all cb_returns (onFailure ?f) \<and>
       completion i (trace c) = map (\<lambda>k. Fired_failure i k (err ?f)) (onFailure ?f)) \<or>
     (state ?f = Fulfilled \<and> list_all cb_returns (onSuccess ?f) \<and>
       completion i (trace c) = map (\<lambda>k. Fired_success i k (result ?f)) (onSuccess ?f))"
    by (auto simp: tinv_def)
  show ?thesis
    unfolding eq
  proof (rule sound_owner [OF assms(1,2,3) i(1), where f' = ?g and evs = "[?ev]"
        and p = "Go_done i" and qs = "[]"])
    show "ext ?f ?g" using i by (simp add: ext_def)
    show "tinv (futs ?c) (trace ?c) (Go_done i)" by (simp add: tinv_def)
    show "finv (futs ?c) (trace ?c) i"
      using fi i ti st cl by (auto simp: finv_def terminal_def nexts_Cons completion_Cons)
  qed (use i in simp_all)
qed

lemma sound_Closure_test:
  assumes "own c" "sound c" "t < length (threads c)" "threads c ! t = Closure_test n nextTask res er"
  shows "sound (run t (Closure_test n nextTask res er) c)"
proof -
  from own_thread [OF assms(1,3)] assms(4)
  have i: "n < length (futs c)" "state (futs c ! n) = Running" "\<not> done_ch (futs c ! n)"
    by (auto simp: thread_ok_def)
  from sound_thread [OF assms(2,3)] assms(4)
  obtain f where ti: "nexts n (trace c) = []" "task (futs c ! n) = Closure f nextTask"
    "done_ch (futs c ! f)" "res = result (futs c ! f)" "er = err (futs c ! f)"
    by (auto simp: tinv_def)
  note fi = sound_fut [OF assms(2) i(1)]
  show ?thesis
  proof (cases er)
    case (Some x)
    then have "tinv (futs c) (trace c) (Go_lock n None er)"
      using ti by (simp add: tinv_def settles_def)
    then show ?thesis using Some assms(2) by (simp add: sound_set_pc)
  next
    case None
    let ?ev = "Invoked_next n res"
    let ?p = "case nextTask res of None \<Rightarrow> Hung | Some (res', er') \<Rightarrow> Go_lock n res' er'"
    let ?c = "set_pc t ?p (emit ?ev c)"
    have eq: "run t (Closure_test n nextTask res er) c = ?c"
      using None by (simp add: Let_def split: option.splits)
    show ?thesis
      unfolding eq
    proof (rule sound_owner [OF assms(1,2,3) i(1), where f' = "futs c ! n" and evs = "[?ev]"
          and p = ?p and qs = "[]"])
      show "tinv (futs ?c) (trace ?c) ?p"
        using ti None by (auto simp: tinv_def settles_def nexts_Cons split: option.splits)
      show "finv (futs ?c) (trace ?c) n"
        using fi i ti None by (auto simp: finv_def terminal_def nexts_Cons completion_Cons called_def)
    qed (use assms(4) in simp_all)
  qed
qed

lemma sound_Then_new:
  assumes "own c" "sound c" "t < length (threads c)" "threads c ! t = Then_enter i nextTask"
  shows "sound (Then_new t i nextTask c)"
proof -
  let ?c = "if \<not> started (futs c ! i) then spawn (Start_enter i) c else c"
  have 1: "sound ?c" "own ?c" "futs ?c = futs c"
    using assms(1,2) own_thread [OF assms(1,3)] assms(4)
    by (auto simp: tinv_def thread_ok_def intro!: sound_spawn own_spawn)
  have "sound (?c\<lparr>futs := futs c @ [NewFuture None (Closure i nextTask)]\<rparr>)"
    using 1 by (intro sound_new) auto
  then show ?thesis
    unfolding Then_new_def Let_def 1(3)
    by (intro sound_set_pc) (simp_all add: tinv_def)
qed

lemma sound_Then_locked:
  assumes "own c" "sound c" "t < length (threads c)" "threads c ! t = Then_link i n"
  shows "sound (Then_locked t i n c)"
proof (cases "mutex (futs c ! i)")
  case True
  then show ?thesis using assms(2) by (simp add: Then_locked_def)
next
  case False
  from own_thread [OF assms(1,3)] assms(4) have i: "i < length (futs c)"
    by (simp add: thread_ok_def)
  let ?g = "(futs c ! i)\<lparr>next_fut := Some n\<rparr>"
  let ?c = "set_pc t (Then_done i n) (set_fut i ?g c)"
  have "sound ?c"
    by (rule sound_same [OF assms(2) i, where f' = ?g and evs = "[]" and t = t and p = "Then_done i n"])
      (simp_all add: same_def tinv_def)
  then show ?thesis using False by (simp add: Then_locked_def)
qed

lemma sound_OnSuccess:
  assumes "own c" "sound c" "t < length (threads c)" "threads c ! t = OnSuccess_enter i k"
  shows "sound (OnSuccess t i k c)"
proof -
  from own_thread [OF assms(1,3)] assms(4) have i: "i < length (futs c)"
    by (simp add: thread_ok_def)
  let ?f = "futs c ! i"
  consider "mutex ?f" | "\<not> mutex ?f" "state ?f = Fulfilled" "cb_returns k"
    | "\<not> mutex ?f" "state ?f = Fulfilled" "\<not> cb_returns k" | "\<not> mutex ?f" "state ?f \<noteq> Fulfilled"
    by blast
  then show ?thesis
  proof cases
    case 1
    then show ?thesis using assms(2) by (simp add: OnSuccess_def)
  next
    case 2
    let ?c = "set_pc t (OnSuccess_done i k) (emit (Immediate_success i k (result ?f)) c)"
    have "sound ?c"
      by (rule sound_same [OF assms(2) i, where f' = ?f and evs = "[Immediate_success i k (result ?f)]"
            and t = t and p = "OnSuccess_done i k"]) (simp_all add: tinv_def)
    then show ?thesis using 2 by (simp add: OnSuccess_def Let_def)
  next
    case 3
    let ?c = "set_pc t Hung (set_fut i (?f\<lparr>mutex := True\<rparr>) (emit (Immediate_success i k (result ?f)) c))"
    have "sound ?c"
      by (rule sound_same [OF assms(2) i, where f' = "?f\<lparr>mutex := True\<rparr>"
            and evs = "[Immediate_success i k (result ?f)]" and t = t and p = Hung])
        (simp_all add: tinv_def same_def)
    then show ?thesis using 3 by (simp add: OnSuccess_def Let_def)
  next
    case 4
    let ?c = "set_pc t (OnSuccess_done i k) (set_fut i (?f\<lparr>onSuccess := onSuccess ?f @ [k]\<rparr>) c)"
    have "sound ?c"
      by (rule sound_same [OF assms(2) i, where f' = "?f\<lparr>onSuccess := onSuccess ?f @ [k]\<rparr>"
            and evs = "[]" and t = t and p = "OnSuccess_done i k"])
        (use 4 in \<open>simp_all add: tinv_def same_def\<close>)
    then show ?thesis using 4 by (simp add: OnSuccess_def Let_def)
  qed
qed

lemma sound_OnFailure:
  assumes "own c" "sound c" "t < length (threads c)" "threads c ! t = OnFailure_enter i k"
  shows "sound (OnFailure t i k c)"
proof -
  from own_thread [OF assms(1,3)] assms(4) have i: "i < length (futs c)"
    by (simp add: thread_ok_def)
  let ?f = "futs c ! i"
  consider "mutex ?f" | "\<not> mutex ?f" "state ?f = Rejected" "cb_returns k"
    | "\<not> mutex ?f" "state ?f = Rejected" "\<not> cb_returns k" | "\<not> mutex ?f" "state ?f \<noteq> Rejected"
    by blast
  then show ?thesis
  proof cases
    case 1
    then show ?thesis using assms(2) by (simp add: OnFailure_def)
  next
    case 2
    let ?c = "set_pc t (OnFailure_done i k) (emit (Immediate_failure i k (err ?f)) c)"
    have "sound ?c"
      by (rule sound_same [OF assms(2) i, where f' = ?f and evs = "[Immediate_failure i k (err ?f)]"
            and t = t and p = "OnFailure_done i k"]) (simp_all add: tinv_def)
    then show ?thesis using 2 by (simp add: OnFailure_def Let_def)
  next
    case 3
    let ?c = "set_pc t Hung (set_fut i (?f\<lparr>mutex := True\<rparr>) (emit (Immediate_failure i k (err ?f)) c))"
    have "sound ?c"
      by (rule sound_same [OF assms(2) i, where f' = "?f\<lparr>mutex := True\<rparr>"
            and evs = "[Immediate_failure i k (err ?f)]" and t = t and p = Hung])
        (simp_all add: tinv_def same_def)
    then show ?thesis using 3 by (simp add: OnFailure_def Let_def)
  next
    case 4
    let ?c = "set_pc t (OnFailure_done i k) (set_fut i (?f\<lparr>onFailure := onFailure ?f @ [k]\<rparr>) c)"
    have "sound ?c"
      by (rule sound_same [OF assms(2) i, where f' = "?f\<lparr>onFailure := onFailure ?f @ [k]\<rparr>"
            and evs = "[]" and t = t and p = "OnFailure_done i k"])
        (use 4 in \<open>simp_all add: tinv_def same_def\<close>)
    then show ?thesis using 4 by (simp add: OnFailure_def Let_def)
  qed
qed

lemma sound_run:
  assumes a: "own c" "sound c" "t < length (threads c)"
  shows "sound (run t (threads c ! t) c)"
proof -
  note tok = own_thread [OF a(1,3)]
  note tin = sound_thread [OF a(2,3)]
  show ?thesis
  proof (cases "threads c ! t")
    case (Start_enter i)
    then show ?thesis using a tok by (auto simp: thread_ok_def tinv_def intro!: sound_Start)
  next
    case (Go_task i)
    then show ?thesis using sound_Go_task [OF a] by simp
  next
    case (Go_lock i res er)
    then show ?thesis using sound_complete [OF a] by simp
  next
    case (Go_fail i ks er)
    then show ?thesis using sound_fire_failure [OF a] sound_close [OF a]
      by (cases ks) auto
  next
    case (Go_succ i ks res)
    then show ?thesis using sound_fire_success [OF a] sound_close [OF a]
      by (cases ks) auto
  next
    case (Result_enter i w)
    then show ?thesis using a tin tok own_fut [OF a(1), of i]
      by (auto simp: tinv_def thread_ok_def fut_ok_def intro!: sound_set_pc)
  next
    case (Result_start i w)
    then show ?thesis using a tok
      by (cases w) (auto simp: thread_ok_def tinv_def intro!: sound_Start)
  next
    case (Result_wait i w)
    then show ?thesis using a tin by (auto simp: tinv_def intro!: sound_set_pc)
  next
    case (Result_read i w)
    then show ?thesis using a tin
      by (cases w) (auto simp: tinv_def linked_def Let_def intro!: sound_set_pc)
  next
    case (Closure_test n nextTask res er)
    then show ?thesis using sound_Closure_test [OF a] by simp
  next
    case (Then_enter i nextTask)
    then show ?thesis using sound_Then_new [OF a] by simp
  next
    case (Then_link i n)
    then show ?thesis using sound_Then_locked [OF a] by simp
  next
    case (OnSuccess_enter i k)
    then show ?thesis using sound_OnSuccess [OF a] by simp
  next
    case (OnFailure_enter i k)
    then show ?thesis using sound_OnFailure [OF a] by simp
  next
    case (State_enter i)
    then show ?thesis using a
      by (auto simp: Let_def tinv_def intro!: sound_set_pc)
  qed (simp_all add: a)
qed

lemma sound_step: "own c \<Longrightarrow> sound c \<Longrightarrow> sound (step c a)"
  by (cases a) (auto simp: tinv_def linked_def intro!: sound_call sound_new sound_run)

lemma sound_exec: "own c \<Longrightarrow> sound c \<Longrightarrow> sound (exec c as)"
  by (induction as rule: rev_induct) (simp_all add: sound_step own_exec)

lemma sound_reach: "sound (exec init as)"
  by (simp add: sound_exec sound_init own_init)

declare expected.simps [simp del]

section \<open>A completed future carries the outcome of its computation\<close>

lemma terminal_simps [simp]:
  "terminal Fulfilled" "terminal Rejected" "\<not> terminal Pending" "\<not> terminal Running"
  by (simp_all add: terminal_def)

lemma own_done_terminal:
  "own c \<Longrightarrow> i < length (futs c) \<Longrightarrow> done_ch (futs c ! i) \<Longrightarrow> terminal (state (futs c ! i))"
  using own_fut [of c i] by (auto simp: fut_ok_def terminal_def)

lemma settles_expected:
  assumes "own c" "sound c"
  shows "i < length (futs c) \<Longrightarrow> settles (futs c) (trace c) i res er \<Longrightarrow>
    expected (futs c) i = Some (res, er)"
proof (induction i arbitrary: res er rule: less_induct)
  case (less i)
  show ?case
  proof (cases "task (futs c ! i)")
    case (Supplied out)
    with less.prems show ?thesis by (simp add: settles_def expected.simps)
  next
    case (Closure f k)
    from own_parent [OF assms(1) less.prems(1) Closure] have fi: "f < i" .
    with less.prems(1) have fl: "f < length (futs c)" by simp
    from less.prems(2) Closure have d: "done_ch (futs c ! f)" by (simp add: settles_def)
    note tf = own_done_terminal [OF assms(1) fl d]
    note ff = sound_fut [OF assms(2) fl]
    show ?thesis
    proof (cases "err (futs c ! f)")
      case None
      with tf ff have "state (futs c ! f) = Fulfilled" "settles (futs c) (trace c) f (result (futs c ! f)) None"
        by (auto simp: finv_def terminal_def)
      from less.IH [OF fi fl this(2)] less.prems(2) Closure None fi show ?thesis
        by (simp add: settles_def expected.simps [of _ i])
    next
      case (Some x)
      with tf ff have "\<exists>r. settles (futs c) (trace c) f r (Some x)"
        by (auto simp: finv_def terminal_def)
      then obtain r where "settles (futs c) (trace c) f r (Some x)" ..
      from less.IH [OF fi fl this] less.prems(2) Closure Some fi show ?thesis
        by (simp add: settles_def expected.simps [of _ i])
    qed
  qed
qed

lemma outcome:
  assumes "own c" "sound c" "i < length (futs c)" "terminal (state (futs c ! i))"
  shows "\<exists>res er. expected (futs c) i = Some (res, er) \<and>
    (case er of
       None \<Rightarrow> state (futs c ! i) = Fulfilled \<and> result (futs c ! i) = res \<and> err (futs c ! i) = None
     | Some x \<Rightarrow> state (futs c ! i) = Rejected \<and> err (futs c ! i) = Some x)"
proof (cases "state (futs c ! i) = Fulfilled")
  case True
  with sound_fut [OF assms(2,3)]
  have "err (futs c ! i) = None" "settles (futs c) (trace c) i (result (futs c ! i)) None"
    by (auto simp: finv_def)
  with settles_expected [OF assms(1,2,3) this(2)] True show ?thesis by auto
next
  case False
  with assms(4) have r: "state (futs c ! i) = Rejected" by (simp add: terminal_def)
  with sound_fut [OF assms(2,3)]
  have "err (futs c ! i) \<noteq> None" "\<exists>res. settles (futs c) (trace c) i res (err (futs c ! i))"
    by (simp_all add: finv_def)
  then obtain x res where x: "err (futs c ! i) = Some x" "settles (futs c) (trace c) i res (Some x)"
    by auto
  from settles_expected [OF assms(1,2,3) x(2)] r x(1) show ?thesis by auto
qed

section \<open>What an execution keeps\<close>

lemma ext_trans: "ext f g \<Longrightarrow> ext g h \<Longrightarrow> ext f h"
  by (auto simp: ext_def)

lemma ext_run:
  "fut_ok (futs c ! i) \<Longrightarrow> i < length (futs c) \<Longrightarrow> ext (futs c ! i) (futs (run t p c) ! i)"
  by (induction t p c rule: run.induct)
    (auto simp: run_defs ext_def fut_ok_def terminal_def nth_update_any nth_append
      split: task.splits option.splits prod.splits caller.splits)

lemma ext_step:
  assumes "own c" "i < length (futs c)"
  shows "ext (futs c ! i) (futs (step c a) ! i)"
proof (cases a)
  case (Run t)
  then show ?thesis using ext_run [OF own_fut [OF assms] assms(2), of t "threads c ! t"] by simp
qed (use assms in \<open>auto simp: call_def spawn_def nth_append\<close>)

lemma ext_exec:
  assumes "own c" "i < length (futs c)"
  shows "ext (futs c ! i) (futs (exec c as) ! i)"
proof (induction as rule: rev_induct)
  case Nil
  then show ?case by simp
next
  case (snoc a as)
  have "i < length (futs (exec c as))"
    using assms(2) length_futs_exec [of c as] by simp
  from ext_step [OF own_exec [OF assms(1)] this, of a] snoc show ?case
    by (auto intro: ext_trans)
qed

lemma length_threads_run: "length (threads c) \<le> length (threads (run t p c))"
  by (induction t p c rule: run.induct)
    (auto simp: run_defs split: task.splits option.splits prod.splits caller.splits)

lemma length_threads_step: "length (threads c) \<le> length (threads (step c a))"
  using length_threads_run [of c] by (cases a) (auto simp: call_def spawn_def)

lemma length_threads_exec: "length (threads c) \<le> length (threads (exec c as))"
  by (induction as rule: rev_induct) (auto intro: order_trans length_threads_step)

lemma other_thread_run:
  "u \<noteq> t \<Longrightarrow> u < length (threads c) \<Longrightarrow> threads (run t p c) ! u = threads c ! u"
  by (induction t p c rule: run.induct)
    (auto simp: run_defs nth_append split: task.splits option.splits prod.splits caller.splits)

lemma new_thread_run:
  "length (threads c) \<le> u \<Longrightarrow> u < length (threads (run t p c)) \<Longrightarrow> t < length (threads c) \<Longrightarrow>
   (\<exists>i. threads (run t p c) ! u = Go_task i) \<or> (\<exists>i. threads (run t p c) ! u = Start_enter i)"
  by (induction t p c rule: run.induct)
    (auto simp: run_defs nth_append nth_update_any
      split: task.splits option.splits prod.splits caller.splits if_splits)

lemma own_thread_State_done:
  "t < length (threads c) \<Longrightarrow> threads (run t p c) ! t = State_done i s \<Longrightarrow>
   p = State_done i s \<or> s = state (futs c ! i) \<or> threads c ! t = State_done i s"
  by (induction t p c rule: run.induct)
    (auto simp: run_defs nth_append nth_update_any
      split: task.splits option.splits prod.splits caller.splits if_splits)

lemma State_done_run:
  assumes "threads (run t (threads c ! t) c) ! u = State_done i s" "u < length (threads (run t (threads c ! t) c))"
    "t < length (threads c)"
  shows "(u < length (threads c) \<and> threads c ! u = State_done i s) \<or> s = state (futs c ! i)"
proof (cases "u = t")
  case False
  show ?thesis
  proof (cases "u < length (threads c)")
    case True
    with False assms(1) other_thread_run [of u t c] show ?thesis by simp
  next
    case False
    with new_thread_run [of c u t "threads c ! t"] assms show ?thesis by auto
  qed
next
  case True
  with assms own_thread_State_done [of t c "threads c ! t" i s] show ?thesis by auto
qed

lemma State_done_step:
  assumes "threads (step c a) ! u = State_done i s" "u < length (threads (step c a))"
  shows "(u < length (threads c) \<and> threads c ! u = State_done i s) \<or> s = state (futs c ! i)"
proof (cases a)
  case (Run t)
  then show ?thesis using assms State_done_run [of t c u i s] by (auto split: if_splits)
qed (use assms in \<open>auto simp: call_def spawn_def nth_append split: if_splits\<close>)

section \<open>A held mutex belongs to a completed future\<close>

lemma other_thread_step:
  "u < length (threads c) \<Longrightarrow> a \<noteq> Run u \<Longrightarrow> threads (step c a) ! u = threads c ! u"
  using other_thread_run [of u _ c]
  by (cases a) (auto simp: call_def nth_append)

lemma lock_ok_run:
  "lock_ok c \<Longrightarrow> lock_ok (run t p c)"
  unfolding lock_ok_def
  by (induction t p c rule: run.induct)
    (auto simp: run_defs nth_update_any nth_append NewFuture_def terminal_def
      split: task.splits option.splits prod.splits caller.splits if_splits)

lemma lock_ok_step: "lock_ok c \<Longrightarrow> lock_ok (step c a)"
  using lock_ok_run [of c]
  by (cases a) (auto simp: lock_ok_def call_def NewFuture_def nth_append)

lemma lock_ok_exec: "lock_ok c \<Longrightarrow> lock_ok (exec c as)"
  by (induction as rule: rev_induct) (simp_all add: lock_ok_step)

lemma lock_ok_reach: "lock_ok (exec init as)"
  by (rule lock_ok_exec) (simp add: lock_ok_def init_def)

text \<open>\<open>Start\<close> on a future that is not started starts it, whichever method calls it.\<close>

lemma Start_starts:
  assumes "lock_ok c" "own c" "i < length (futs c)" "\<not> started (futs c ! i)" "t < length (threads c)"
  shows "started (futs (Start t ret i c) ! i) \<and> state (futs (Start t ret i c) ! i) = Running \<and>
    threads (Start t ret i c) = (threads c)[t := ret] @ [Go_task i] \<and>
    trace (Start t ret i c) = trace c"
proof -
  from own_fut [OF assms(2,3)] assms(4) have s: "state (futs c ! i) = Pending"
    by (simp add: fut_ok_def)
  with assms(1,3) have "\<not> mutex (futs c ! i)" by (auto simp: lock_ok_def terminal_def)
  with s assms(3,4,5) show ?thesis
    by (simp add: Start_def Start_locked_def Let_def set_pc_def set_fut_def spawn_def)
qed

section \<open>The task runs at most once\<close>

lemmas exec_defs = exec_def init_def call_def spawn_def set_pc_def set_fut_def emit_def
  Start_def Start_locked_def complete_def close_done_def OnSuccess_def OnFailure_def
  Then_new_def Then_locked_def NewFuture_def Let_def

lemma invoked_once: "count_list (trace (exec init as)) (Invoked_task i) \<le> 1"
proof (cases "i < length (futs (exec init as))")
  case True
  from sound_fut [OF sound_reach True] show ?thesis by (simp add: finv_def)
next
  case False
  have "\<forall>ev \<in> set (trace (exec init as)). subject ev \<noteq> i"
    using sound_reach [of as] False by (auto simp: sound_def)
  from subject_count [OF this] show ?thesis by simp
qed

text \<open>
  C1. In every reachable configuration the task of a future has been invoked at most once.
  A call of \<open>Start\<close> that finds \<open>started\<close> set, whether it comes from client code or from
  \<open>go f.Start()\<close> in \<open>Then\<close> (\<open>Start_enter\<close>) or from \<open>Result\<close> (\<open>Result_start\<close>), changes no
  future, emits nothing and spawns no goroutine.
\<close>

theorem task_invoked_at_most_once:
  assumes "c = exec init as"
  shows
    "count_list (trace c) (Invoked_task i) \<le> 1 \<and>
     (t < length (threads c) \<longrightarrow> started (futs c ! i) \<longrightarrow>
      threads c ! t = Start_enter i \<or> threads c ! t = Result_start i w \<longrightarrow>
        futs (step c (Run t)) = futs c \<and> trace (step c (Run t)) = trace c \<and>
        length (threads (step c (Run t))) = length (threads c))"
  using invoked_once [of as i] assms
  by (auto simp: Start_def Start_locked_def Let_def)

lemma started_thrice_eq:
  "started_thrice =
     \<lparr>futs = [\<lparr>task = Supplied (Some (Some 42, None)), mutex = False, result = None, err = None,
               state = Running, done_ch = False, next_fut = None, onSuccess = [], onFailure = [],
               started = True\<rparr>],
      threads = [Start_done 0, Go_lock 0 (Some 42) None, Start_enter 0, Result_wait 0 Client],
      trace = [Invoked_task 0]\<rparr>"
  by (simp add: started_thrice_def exec_defs)

theorem task_invoked_at_most_once_witness:
  "2 < length (threads started_thrice) \<and> started (futs started_thrice ! 0) \<and>
   threads started_thrice ! 2 = Start_enter 0 \<and>
   futs (step started_thrice (Run 2)) = futs started_thrice \<and>
   trace (step started_thrice (Run 2)) = [Invoked_task 0] \<and>
   length (threads (step started_thrice (Run 2))) = 4 \<and>
   count_list (trace started_thrice) (Invoked_task 0) \<le> 1"
  using task_invoked_at_most_once [OF started_thrice_def, of 0 2 Client]
  by (simp add: started_thrice_eq)

section \<open>The state as client code observes it\<close>

lemma State_seen:
  assumes "c = exec init bs" "t < length (threads c)" "threads c ! t = State_done i s" "terminal s"
  shows "i < length (futs c) \<and> state (futs c ! i) = s"
proof -
  from assms(1) have o: "own c" and sd: "sound c" by (simp_all add: own_reach sound_reach)
  from own_thread [OF o assms(2)] assms(3) have "i < length (futs c)" by (simp add: thread_ok_def)
  moreover from sound_thread [OF sd assms(2)] assms(3,4) have "state (futs c ! i) = s"
    by (simp add: tinv_def)
  ultimately show ?thesis by simp
qed

lemma State_later:
  assumes "i < length (futs c)" "state (futs c ! i) = s" "terminal s"
  shows "u < length (threads (exec c as)) \<Longrightarrow> threads (exec c as) ! u = State_done i s' \<Longrightarrow>
    s' = s \<or> (u < length (threads c) \<and> threads c ! u = State_done i s')"
proof (induction as arbitrary: u s' rule: rev_induct)
  case Nil
  then show ?case by simp
next
  case (snoc a as)
  from snoc.prems have "(u < length (threads (exec c as)) \<and> threads (exec c as) ! u = State_done i s') \<or>
      s' = state (futs (exec c as) ! i)"
    using State_done_step [of "exec c as" a u i s'] by simp
  then show ?case
  proof
    assume "u < length (threads (exec c as)) \<and> threads (exec c as) ! u = State_done i s'"
    with snoc.IH show ?thesis by blast
  next
    assume "s' = state (futs (exec c as) ! i)"
    with terminal_exec [OF assms(1), of as] assms(2,3) show ?thesis by simp
  qed
qed

text \<open>
  C2. A step of any kind moves the state of a future along Pending, Running, then Fulfilled
  or Rejected, or leaves it; a terminal state stays for the rest of every execution; and
  once a call of \<open>State\<close> has returned a terminal state \<open>s\<close>, a call of \<open>State\<close> on the same
  future that returns later returns \<open>s\<close>.
\<close>

theorem state_only_moves_forward:
  "(i < length (futs c) \<longrightarrow> forward (state (futs c ! i)) (state (futs (step c a) ! i))) \<and>
   (i < length (futs c) \<longrightarrow> terminal (state (futs c ! i)) \<longrightarrow>
      state (futs (exec c as) ! i) = state (futs c ! i)) \<and>
   (c = exec init bs \<longrightarrow> t < length (threads c) \<longrightarrow> threads c ! t = State_done i s \<longrightarrow> terminal s \<longrightarrow>
      u < length (threads (exec c as)) \<longrightarrow> threads (exec c as) ! u = State_done i s' \<longrightarrow>
      s' = s \<or> (u < length (threads c) \<and> threads c ! u = State_done i s'))"
proof (intro conjI impI)
  assume "i < length (futs c)"
  then show "forward (state (futs c ! i)) (state (futs (step c a) ! i))" by (rule forward_step)
next
  assume "i < length (futs c)" "terminal (state (futs c ! i))"
  then show "state (futs (exec c as) ! i) = state (futs c ! i)" by (rule terminal_exec)
next
  assume a: "c = exec init bs" "t < length (threads c)" "threads c ! t = State_done i s" "terminal s"
    and b: "u < length (threads (exec c as))" "threads (exec c as) ! u = State_done i s'"
  from State_seen [OF a] have "i < length (futs c)" "state (futs c ! i) = s" by simp_all
  from State_later [OF this a(4) b] show "s' = s \<or> (u < length (threads c) \<and> threads c ! u = State_done i s')" .
qed

lemma observed_rejected_eq:
  "observed_rejected =
     \<lparr>futs = [\<lparr>task = Supplied (Some (None, Some ''boom'')), mutex = False, result = None,
               err = Some ''boom'', state = Rejected, done_ch = False, next_fut = None,
               onSuccess = [], onFailure = [], started = True\<rparr>],
      threads = [Start_done 0, Go_fail 0 [] (Some ''boom''), State_done 0 Rejected],
      trace = [Invoked_task 0]\<rparr>"
  by (simp add: observed_rejected_def exec_defs)

lemma observed_again_eq:
  "observed_again =
     \<lparr>futs = [\<lparr>task = Supplied (Some (None, Some ''boom'')), mutex = False, result = None,
               err = Some ''boom'', state = Rejected, done_ch = True, next_fut = None,
               onSuccess = [], onFailure = [], started = True\<rparr>],
      threads = [Start_done 0, Go_done 0, State_done 0 Rejected, State_done 0 Rejected],
      trace = [Invoked_task 0, Closed_done 0]\<rparr>"
  by (simp add: observed_again_def observed_rejected_eq exec_defs)

theorem state_only_moves_forward_witness:
  "0 < length (futs observed_rejected) \<and> terminal (state (futs observed_rejected ! 0)) \<and>
   2 < length (threads observed_rejected) \<and> threads observed_rejected ! 2 = State_done 0 Rejected \<and>
   forward (state (futs observed_rejected ! 0)) (state (futs (step observed_rejected (Run 1)) ! 0)) \<and>
   state (futs observed_again ! 0) = Rejected \<and>
   3 < length (threads observed_again) \<and> \<not> 3 < length (threads observed_rejected) \<and>
   threads observed_again ! 3 = State_done 0 Rejected"
proof -
  have h: "0 < length (futs observed_rejected)" "terminal (state (futs observed_rejected ! 0))"
    "2 < length (threads observed_rejected)" "threads observed_rejected ! 2 = State_done 0 Rejected"
    "3 < length (threads observed_again)" "\<not> 3 < length (threads observed_rejected)"
    "threads observed_again ! 3 = State_done 0 Rejected"
    by (simp_all add: observed_rejected_eq observed_again_eq)
  from state_only_moves_forward [of 0 observed_rejected "Run 1" "[Run 1, Call_State 0, Run 3]"
      "[Call_NewFuture None (Some (None, Some ''boom'')), Call_Start 0, Run 0, Run 1, Run 1,
       Call_State 0, Run 2]" 2 Rejected 3 Rejected] h(1,2)
  have "forward (state (futs observed_rejected ! 0)) (state (futs (step observed_rejected (Run 1)) ! 0))"
    "state (futs observed_again ! 0) = state (futs observed_rejected ! 0)"
    by (simp_all add: observed_again_def)
  with h show ?thesis by (simp add: observed_rejected_eq)
qed

section \<open>Failures propagate down a chain\<close>

lemma ancestor_less:
  "parents fs \<Longrightarrow> x < length fs \<Longrightarrow> ancestor fs n x = Some p \<Longrightarrow> p \<le> x"
proof (induction n arbitrary: x)
  case 0
  then show ?case by simp
next
  case (Suc n)
  then obtain f k where t: "task (fs ! x) = Closure f k" "ancestor fs n f = Some p"
    by (auto split: task.splits)
  with Suc.prems(1,2) have "f < x" by (auto simp: parents_def)
  with Suc.IH [OF Suc.prems(1) _ t(2)] Suc.prems(2) show ?case by simp
qed




lemma Result_done_seen:
  assumes "own c" "sound c" "t < length (threads c)" "threads c ! t = Result_done i v e"
  shows "i < length (futs c) \<and> done_ch (futs c ! i) \<and> terminal (state (futs c ! i)) \<and>
    v = result (futs c ! i) \<and> e = err (futs c ! i)"
proof -
  from own_thread [OF assms(1,3)] assms(4) have i: "i < length (futs c)" by (simp add: thread_ok_def)
  from sound_thread [OF assms(2,3)] assms(4)
  have d: "done_ch (futs c ! i)" "v = result (futs c ! i)" "e = err (futs c ! i)"
    by (simp_all add: tinv_def)
  with i own_done_terminal [OF assms(1) i d(1)] show ?thesis by simp
qed




section \<open>A continuation runs on the value of its parent\<close>







section \<open>The close follows the callbacks\<close>

lemma count_completion: "count_list (completion i tr) (Closed_done i) = count_list tr (Closed_done i)"
  by (induction tr) (auto simp: completion_Cons)

lemma count_fired:
  "count_list (map (\<lambda>k. Fired_success i k v) ks) (Closed_done i) = 0"
  "count_list (map (\<lambda>k. Fired_failure i k e) ks) (Closed_done i) = 0"
  by (induction ks) auto

lemma closed_once_success:
  "completion i tr = map (\<lambda>k. Fired_success i k v) ks @ [Closed_done i] \<Longrightarrow>
   count_list tr (Closed_done i) = 1"
  using count_completion [of i tr] by (simp add: count_fired)

lemma closed_once_failure:
  "completion i tr = map (\<lambda>k. Fired_failure i k e) ks @ [Closed_done i] \<Longrightarrow>
   count_list tr (Closed_done i) = 1"
  using count_completion [of i tr] by (simp add: count_fired)

lemma signalled:
  assumes "own c" "sound c" "i < length (futs c)" "done_ch (futs c ! i)"
  shows "terminal (state (futs c ! i)) \<and> count_list (trace c) (Closed_done i) = 1 \<and>
     (state (futs c ! i) = Fulfilled \<longrightarrow>
        err (futs c ! i) = None \<and> list_all cb_returns (onSuccess (futs c ! i)) \<and>
        completion i (trace c) =
          map (\<lambda>k. Fired_success i k (result (futs c ! i))) (onSuccess (futs c ! i)) @ [Closed_done i]) \<and>
     (state (futs c ! i) = Rejected \<longrightarrow>
        err (futs c ! i) \<noteq> None \<and> list_all cb_returns (onFailure (futs c ! i)) \<and>
        completion i (trace c) =
          map (\<lambda>k. Fired_failure i k (err (futs c ! i))) (onFailure (futs c ! i)) @ [Closed_done i])"
proof -
  note t = own_done_terminal [OF assms(1,3,4)]
  note f = sound_fut [OF assms(2,3)]
  from f assms(4) have
    s: "state (futs c ! i) = Fulfilled \<longrightarrow>
        err (futs c ! i) = None \<and> list_all cb_returns (onSuccess (futs c ! i)) \<and>
        completion i (trace c) =
          map (\<lambda>k. Fired_success i k (result (futs c ! i))) (onSuccess (futs c ! i)) @ [Closed_done i]"
    and r: "state (futs c ! i) = Rejected \<longrightarrow>
        err (futs c ! i) \<noteq> None \<and> list_all cb_returns (onFailure (futs c ! i)) \<and>
        completion i (trace c) =
          map (\<lambda>k. Fired_failure i k (err (futs c ! i))) (onFailure (futs c ! i)) @ [Closed_done i]"
    by (simp_all add: finv_def)
  have "count_list (trace c) (Closed_done i) = 1"
  proof (cases "state (futs c ! i) = Fulfilled")
    case True
    with s show ?thesis by (intro closed_once_success) simp
  next
    case False
    with t have "state (futs c ! i) = Rejected" by (simp add: terminal_def)
    with r show ?thesis by (intro closed_once_failure) simp
  qed
  with t s r show ?thesis by blast
qed





section \<open>Registration of callbacks\<close>

text \<open>
  C7. A registration that finds the future already in its matching terminal state invokes the
  callback at once, with the stored value or failure, inside the locked region, and leaves
  both callback lists as they are; in every other state it appends the callback to its list.
\<close>

theorem registration_fires_or_appends:
  assumes "t < length (threads c)" "i < length (futs c)" "\<not> mutex (futs c ! i)"
  shows
    "(threads c ! t = OnSuccess_enter i k \<longrightarrow>
        (if state (futs c ! i) = Fulfilled
         then trace (step c (Run t)) = trace c @ [Immediate_success i k (result (futs c ! i))] \<and>
              onSuccess (futs (step c (Run t)) ! i) = onSuccess (futs c ! i) \<and>
              onFailure (futs (step c (Run t)) ! i) = onFailure (futs c ! i) \<and>
              mutex (futs (step c (Run t)) ! i) = (\<not> cb_returns k) \<and>
              threads (step c (Run t)) = (threads c)[t := if cb_returns k then OnSuccess_done i k else Hung]
         else trace (step c (Run t)) = trace c \<and>
              onSuccess (futs (step c (Run t)) ! i) = onSuccess (futs c ! i) @ [k] \<and>
              \<not> mutex (futs (step c (Run t)) ! i) \<and>
              threads (step c (Run t)) = (threads c)[t := OnSuccess_done i k])) \<and>
     (threads c ! t = OnFailure_enter i k \<longrightarrow>
        (if state (futs c ! i) = Rejected
         then trace (step c (Run t)) = trace c @ [Immediate_failure i k (err (futs c ! i))] \<and>
              onSuccess (futs (step c (Run t)) ! i) = onSuccess (futs c ! i) \<and>
              onFailure (futs (step c (Run t)) ! i) = onFailure (futs c ! i) \<and>
              mutex (futs (step c (Run t)) ! i) = (\<not> cb_returns k) \<and>
              threads (step c (Run t)) = (threads c)[t := if cb_returns k then OnFailure_done i k else Hung]
         else trace (step c (Run t)) = trace c \<and>
              onFailure (futs (step c (Run t)) ! i) = onFailure (futs c ! i) @ [k] \<and>
              \<not> mutex (futs (step c (Run t)) ! i) \<and>
              threads (step c (Run t)) = (threads c)[t := OnFailure_done i k]))"
  using assms by (simp add: OnSuccess_def OnFailure_def Let_def)

lemma fulfilled_then_registered_eq:
  "fulfilled_then_registered =
     \<lparr>futs = [\<lparr>task = Supplied (Some (Some 42, None)), mutex = False, result = Some 42, err = None,
               state = Fulfilled, done_ch = True, next_fut = None, onSuccess = [], onFailure = [],
               started = True\<rparr>],
      threads = [Start_done 0, Go_done 0, OnSuccess_enter 0 (Cb 7 True)],
      trace = [Invoked_task 0, Closed_done 0]\<rparr>"
  by (simp add: fulfilled_then_registered_def exec_defs)

theorem registration_fires_or_appends_witness:
  "2 < length (threads fulfilled_then_registered) \<and> 0 < length (futs fulfilled_then_registered) \<and>
   \<not> mutex (futs fulfilled_then_registered ! 0) \<and>
   threads fulfilled_then_registered ! 2 = OnSuccess_enter 0 (Cb 7 True) \<and>
   state (futs fulfilled_then_registered ! 0) = Fulfilled \<and>
   trace (step fulfilled_then_registered (Run 2)) =
     [Invoked_task 0, Closed_done 0, Immediate_success 0 (Cb 7 True) (Some 42)] \<and>
   onSuccess (futs (step fulfilled_then_registered (Run 2)) ! 0) = []"
proof -
  have h: "2 < length (threads fulfilled_then_registered)" "0 < length (futs fulfilled_then_registered)"
    "\<not> mutex (futs fulfilled_then_registered ! 0)"
    by (simp_all add: fulfilled_then_registered_eq)
  show ?thesis
    using registration_fires_or_appends [OF h, of "Cb 7 True"]
    by (simp add: fulfilled_then_registered_eq)
qed

section \<open>Registration on a completed future\<close>

lemma rejected_then_registered_eq:
  "rejected_then_registered =
     \<lparr>futs = [\<lparr>task = Supplied (Some (None, Some ''boom'')), mutex = False, result = None,
               err = Some ''boom'', state = Rejected, done_ch = True, next_fut = None,
               onSuccess = [], onFailure = [], started = True\<rparr>],
      threads = [Start_done 0, Go_done 0, OnSuccess_enter 0 (Cb 7 True), OnFailure_enter 0 (Cb 8 True)],
      trace = [Invoked_task 0, Closed_done 0]\<rparr>"
  by (simp add: rejected_then_registered_def exec_defs)

text \<open>
  C8, as stated, fails: \<open>OnSuccess\<close> on a future that is already Rejected returns without
  invoking the callback and leaves it on the list \<open>onSuccess\<close>.
\<close>

theorem late_success_callback_on_rejected_is_queued:
  "state (futs rejected_then_registered ! 0) = Rejected \<and> done_ch (futs rejected_then_registered ! 0) \<and>
   threads rejected_then_registered ! 2 = OnSuccess_enter 0 (Cb 7 True) \<and>
   threads (step rejected_then_registered (Run 2)) ! 2 = OnSuccess_done 0 (Cb 7 True) \<and>
   trace (step rejected_then_registered (Run 2)) = trace rejected_then_registered \<and>
   onSuccess (futs rejected_then_registered ! 0) = [] \<and>
   onSuccess (futs (step rejected_then_registered (Run 2)) ! 0) = [Cb 7 True]"
  by (simp add: rejected_then_registered_eq exec_defs)

text \<open>
  C8, amended. On a future in a terminal state, the registration that matches the state
  (\<open>OnSuccess\<close> on Fulfilled, \<open>OnFailure\<close> on Rejected) invokes the callback at once and queues
  nothing; the other registration invokes nothing and appends the callback to its list.
\<close>

theorem late_registration_fires_on_matching_state:
  assumes "t < length (threads c)" "i < length (futs c)" "\<not> mutex (futs c ! i)"
    and "terminal (state (futs c ! i))"
  shows
    "(threads c ! t = OnSuccess_enter i k \<longrightarrow>
        (state (futs c ! i) = Fulfilled \<longrightarrow>
           trace (step c (Run t)) = trace c @ [Immediate_success i k (result (futs c ! i))] \<and>
           onSuccess (futs (step c (Run t)) ! i) = onSuccess (futs c ! i)) \<and>
        (state (futs c ! i) = Rejected \<longrightarrow>
           trace (step c (Run t)) = trace c \<and>
           onSuccess (futs (step c (Run t)) ! i) = onSuccess (futs c ! i) @ [k])) \<and>
     (threads c ! t = OnFailure_enter i k \<longrightarrow>
        (state (futs c ! i) = Rejected \<longrightarrow>
           trace (step c (Run t)) = trace c @ [Immediate_failure i k (err (futs c ! i))] \<and>
           onFailure (futs (step c (Run t)) ! i) = onFailure (futs c ! i)) \<and>
        (state (futs c ! i) = Fulfilled \<longrightarrow>
           trace (step c (Run t)) = trace c \<and>
           onFailure (futs (step c (Run t)) ! i) = onFailure (futs c ! i) @ [k]))"
  using assms by (auto simp: OnSuccess_def OnFailure_def Let_def)

theorem late_registration_fires_on_matching_state_witness:
  "3 < length (threads rejected_then_registered) \<and> 0 < length (futs rejected_then_registered) \<and>
   \<not> mutex (futs rejected_then_registered ! 0) \<and> terminal (state (futs rejected_then_registered ! 0)) \<and>
   threads rejected_then_registered ! 3 = OnFailure_enter 0 (Cb 8 True) \<and>
   state (futs rejected_then_registered ! 0) = Rejected \<and>
   trace (step rejected_then_registered (Run 3)) =
     [Invoked_task 0, Closed_done 0, Immediate_failure 0 (Cb 8 True) (Some ''boom'')] \<and>
   onFailure (futs (step rejected_then_registered (Run 3)) ! 0) = []"
proof -
  have h: "3 < length (threads rejected_then_registered)" "0 < length (futs rejected_then_registered)"
    "\<not> mutex (futs rejected_then_registered ! 0)" "terminal (state (futs rejected_then_registered ! 0))"
    by (simp_all add: rejected_then_registered_eq)
  from late_registration_fires_on_matching_state [OF h, of "Cb 8 True"] show ?thesis
    by (simp add: rejected_then_registered_eq)
qed

section \<open>A chained future is created unstarted\<close>

lemma forget_sel [simp]:
  "threads (forget c) = threads c" "trace (forget c) = trace c"
  "length (futs (forget c)) = length (futs c)"
  by (simp_all add: forget_def)

lemma forget_nth:
  "i < length (futs c) \<Longrightarrow> futs (forget c) ! i = (futs c ! i)\<lparr>next_fut := None\<rparr>"
  by (simp add: forget_def)

lemma forget_eqI:
  "threads c = threads d \<Longrightarrow> trace c = trace d \<Longrightarrow>
   map (\<lambda>f. f\<lparr>next_fut := None\<rparr>) (futs c) = map (\<lambda>f. f\<lparr>next_fut := None\<rparr>) (futs d) \<Longrightarrow>
   forget c = forget d"
  by (simp add: forget_def)

lemma futs_forget [simp]: "futs (forget c) = map (\<lambda>f. f\<lparr>next_fut := None\<rparr>) (futs c)"
  by (simp add: forget_def)

lemma map_update_same: "(map g xs)[i := g (xs ! i)] = map g xs"
  by (simp add: map_update [symmetric])

lemma forget_run:
  assumes "thread_ok (futs c) p" "t < length (threads c)"
  shows "forget (run t p c) = forget (run t p (forget c))"
proof (rule forget_eqI)
  show "threads (run t p c) = threads (run t p (forget c))"
    using assms
    by (induction t p c rule: run.induct)
      (auto simp: run_defs thread_ok_def split: task.splits option.splits prod.splits caller.splits)
  show "trace (run t p c) = trace (run t p (forget c))"
    using assms
    by (induction t p c rule: run.induct)
      (auto simp: run_defs thread_ok_def split: task.splits option.splits prod.splits caller.splits)
  show "map (\<lambda>f. f\<lparr>next_fut := None\<rparr>) (futs (run t p c)) =
      map (\<lambda>f. f\<lparr>next_fut := None\<rparr>) (futs (run t p (forget c)))"
    using assms
    by (induction t p c rule: run.induct)
      (auto simp: run_defs thread_ok_def map_update comp_def map_update_same
        split: task.splits option.splits prod.splits caller.splits)
qed

lemma forget_step:
  assumes "own c"
  shows "forget (step c a) = forget (step (forget c) a)"
proof (cases a)
  case (Run t)
  show ?thesis
  proof (cases "t < length (threads c)")
    case True
    from forget_run [OF own_thread [OF assms True] True] Run True show ?thesis by simp
  next
    case False
    with Run show ?thesis by (simp add: forget_def)
  qed
qed (auto simp: forget_def call_def spawn_def NewFuture_def)

lemma own_forget:
  assumes "own c"
  shows "own (forget c)"
proof -
  have "thread_ok (futs (forget c)) p" if "thread_ok (futs c) p" for p
    using that by (auto simp: thread_ok_def)
  moreover have "parents (futs (forget c))"
    using assms by (auto simp: own_def parents_def)
  ultimately show ?thesis
    using assms by (auto simp: own_def fut_ok_def)
qed

lemma forget_forget [simp]: "forget (forget c) = forget c"
  by (simp add: forget_def comp_def)

lemma forget_exec:
  assumes "own c"
  shows "forget (exec c as) = forget (exec (forget c) as)"
proof (induction as rule: rev_induct)
  case Nil
  then show ?case by simp
next
  case (snoc a as)
  have "forget (step (exec c as) a) = forget (step (forget (exec c as)) a)"
    using own_exec [OF assms] by (rule forget_step)
  also have "\<dots> = forget (step (forget (exec (forget c) as)) a)"
    using snoc by simp
  also have "\<dots> = forget (step (exec (forget c) as) a)"
    using own_exec [OF own_forget [OF assms]] by (rule forget_step [symmetric])
  finally show ?case by simp
qed

lemma fresh_not_invoked:
  assumes "sound c"
  shows "Invoked_task (length (futs c)) \<notin> set (trace c)"
  using assms by (auto simp: sound_def)

lemma Start_enter_starts:
  assumes "own d" "lock_ok d" "s < length (threads d)" "threads d ! s = Start_enter i"
  shows "started (futs (step d (Run s)) ! i)"
proof -
  from own_thread [OF assms(1,3)] assms(4) have i: "i < length (futs d)" by (simp add: thread_ok_def)
  show ?thesis
  proof (cases "started (futs d ! i)")
    case True
    with assms(3,4) i show ?thesis
      by (simp add: Start_def Start_locked_def Let_def set_pc_def set_fut_def)
  next
    case False
    from Start_starts [OF assms(2,1) i False assms(3)] assms(3,4) show ?thesis by simp
  qed
qed

lemma Start_thread_step:
  assumes "own d" "s < length (threads d)"
    "threads d ! s = Start_enter i \<or> threads d ! s = Start_done i \<and> started (futs d ! i)"
  shows "threads (step d a) ! s = Start_enter i \<or>
    threads (step d a) ! s = Start_done i \<and> started (futs (step d a) ! i)"
proof -
  from own_thread [OF assms(1,2)] assms(3) have i: "i < length (futs d)"
    by (auto simp: thread_ok_def)
  have keep: "started (futs (step d a) ! i)" if "started (futs d ! i)"
  proof -
    from own_fut [OF assms(1) i] that have "state (futs d ! i) \<noteq> Pending" by (simp add: fut_ok_def)
    with ext_step [OF assms(1) i, of a] have "state (futs (step d a) ! i) \<noteq> Pending"
      by (simp add: ext_def)
    moreover from i length_futs_step [of d a] have "i < length (futs (step d a))" by simp
    ultimately show ?thesis using own_fut [OF own_step [OF assms(1), of a]] by (simp add: fut_ok_def)
  qed
  show ?thesis
  proof (cases "a = Run s")
    case False
    from other_thread_step [OF assms(2) False] assms(3) keep show ?thesis by auto
  next
    case True
    from assms(3) show ?thesis
    proof
      assume e: "threads d ! s = Start_enter i"
      show ?thesis
      proof (cases "mutex (futs d ! i)")
        case m: True
        with e assms(2) True show ?thesis by (simp add: Start_def Let_def)
      next
        case m: False
        have "started (futs (Start s (Start_done i) i d) ! i)"
          using m i own_fut [OF assms(1) i]
          by (auto simp: Start_def Start_locked_def Let_def set_pc_def set_fut_def spawn_def fut_ok_def)
        moreover have "threads (Start s (Start_done i) i d) ! s = Start_done i"
          using m assms(2)
          by (simp add: Start_def Start_locked_def Let_def set_pc_def set_fut_def spawn_def nth_append)
        ultimately show ?thesis using e assms(2) True by simp
      qed
    next
      assume "threads d ! s = Start_done i \<and> started (futs d ! i)"
      with assms(2) True show ?thesis by simp
    qed
  qed
qed

lemma Start_thread_exec:
  assumes "own d" "s < length (threads d)" "threads d ! s = Start_enter i"
  shows "s < length (threads (exec d bs)) \<and>
    (threads (exec d bs) ! s = Start_enter i \<or>
     threads (exec d bs) ! s = Start_done i \<and> started (futs (exec d bs) ! i))"
proof (induction bs rule: rev_induct)
  case Nil
  from assms show ?case by simp
next
  case (snoc a bs)
  from Start_thread_step [OF own_exec [OF assms(1), of bs], of s i a] snoc
    length_threads_step [of "exec d bs" a]
  show ?case by auto
qed

text \<open>
  C9. \<open>Then\<close> on a future \<open>i\<close> of a reachable configuration creates a new future, Pending, not
  started, its task not invoked, around the closure over \<open>i\<close> and the continuation; it
  emits nothing; it spawns \<open>Start\<close> on \<open>i\<close> as a thread of its own exactly when it reads
  \<open>started\<close> of \<open>i\<close> as unset, and changes no field of \<open>i\<close> in doing so. Its second step
  stores the new future in \<open>next\<close> of \<open>i\<close> and returns it, still untouched. The values of the
  \<open>next\<close> fields have no influence on any execution: erasing them before an execution or
  after it gives the same configuration. The thread \<open>s\<close> that \<open>Then\<close> spawns runs \<open>Start\<close> on
  \<open>i\<close>: its step right after the first step of \<open>Then\<close> sets \<open>started\<close>, moves \<open>i\<close> to Running and
  spawns the goroutine for the task of \<open>i\<close>, and after its step at any later moment, whatever
  has happened in between, \<open>i\<close> is started.
\<close>

theorem Then_returns_an_unstarted_future:
  assumes "c = exec init as" "t < length (threads c)" "threads c ! t = Then_enter i k"
    and "n = length (futs c)" "c' = step c (Run t)" "c'' = step c' (Run t)"
    and "s = length (threads c)"
  shows
    "futs c' = futs c @ [NewFuture None (Closure i k)] \<and>
     state (futs c' ! n) = Pending \<and> \<not> started (futs c' ! n) \<and> Invoked_task n \<notin> set (trace c') \<and>
     trace c' = trace c \<and> threads c' ! t = Then_link i n \<and>
     threads c' = (threads c)[t := Then_link i n] @ (if started (futs c ! i) then [] else [Start_enter i]) \<and>
     (\<not> mutex (futs c ! i) \<longrightarrow>
        threads c'' ! t = Then_done i n \<and> next_fut (futs c'' ! i) = Some n \<and>
        futs c'' = (futs c')[i := (futs c ! i)\<lparr>next_fut := Some n\<rparr>] \<and>
        futs c'' ! n = NewFuture None (Closure i k) \<and> trace c'' = trace c) \<and>
     forget (exec c bs) = forget (exec (forget c) bs) \<and>
     (\<not> started (futs c ! i) \<longrightarrow>
        threads c' ! s = Start_enter i \<and>
        started (futs (step c' (Run s)) ! i) \<and> state (futs (step c' (Run s)) ! i) = Running \<and>
        threads (step c' (Run s)) = (threads c)[t := Then_link i n] @ [Start_done i, Go_task i] \<and>
        trace (step c' (Run s)) = trace c \<and>
        futs (step c' (Run s)) ! n = NewFuture None (Closure i k) \<and>
        (\<forall>ds. started (futs (step (exec c' ds) (Run s)) ! i)))"
proof -
  from assms(1) have o: "own c" and sd: "sound c" by (simp_all add: own_reach sound_reach)
  from own_thread [OF o assms(2)] assms(3) have i: "i < length (futs c)" by (simp add: thread_ok_def)
  have 1: "futs c' = futs c @ [NewFuture None (Closure i k)]" "trace c' = trace c"
    "threads c' = (threads c)[t := Then_link i n] @ (if started (futs c ! i) then [] else [Start_enter i])"
    using assms(2-5) by (simp_all add: Then_new_def Let_def list_update_append)
  then have 2: "threads c' ! t = Then_link i n" "state (futs c' ! n) = Pending" "\<not> started (futs c' ! n)"
    "futs c' ! i = futs c ! i" "t < length (threads c')"
    using assms(2,4) i by (simp_all add: nth_append NewFuture_def)
  have 3: "Invoked_task n \<notin> set (trace c')"
    using fresh_not_invoked [OF sd] 1(2) assms(4) by simp
  have 4: "threads c'' ! t = Then_done i n \<and> next_fut (futs c'' ! i) = Some n \<and>
        futs c'' = (futs c')[i := (futs c ! i)\<lparr>next_fut := Some n\<rparr>] \<and>
        futs c'' ! n = NewFuture None (Closure i k) \<and> trace c'' = trace c"
    if "\<not> mutex (futs c ! i)"
    using that assms(4,6) 1(1,2) 2 i by (simp add: Then_locked_def Let_def nth_append)
  have r: "c' = exec init (as @ [Run t])" using assms(1,5) by simp
  then have o': "own c'" and l': "lock_ok c'" by (simp_all only: own_reach lock_ok_reach)
  have 5: "threads c' ! s = Start_enter i \<and>
        started (futs (step c' (Run s)) ! i) \<and> state (futs (step c' (Run s)) ! i) = Running \<and>
        threads (step c' (Run s)) = (threads c)[t := Then_link i n] @ [Start_done i, Go_task i] \<and>
        trace (step c' (Run s)) = trace c \<and>
        futs (step c' (Run s)) ! n = NewFuture None (Closure i k) \<and>
        (\<forall>ds. started (futs (step (exec c' ds) (Run s)) ! i))"
    if u: "\<not> started (futs c ! i)"
  proof -
    from u 1(3) assms(7) have th: "threads c' = (threads c)[t := Then_link i n] @ [Start_enter i]"
      "s < length (threads c')" "threads c' ! s = Start_enter i"
      by (simp_all add: nth_append)
    from i 1(1) have i': "i < length (futs c')" by simp
    from u 2(4) have u': "\<not> started (futs c' ! i)" by simp
    from Start_starts [OF l' o' i' u' th(2), of "Start_done i"] th assms(7)
    have a: "started (futs (step c' (Run s)) ! i)" "state (futs (step c' (Run s)) ! i) = Running"
      "threads (step c' (Run s)) = (threads c)[t := Then_link i n] @ [Start_done i, Go_task i]"
      "trace (step c' (Run s)) = trace c'"
      by (simp_all add: list_update_append)
    from own_fut [OF o' i'] u' have "state (futs c' ! i) = Pending" by (simp add: fut_ok_def)
    with l' i' have "\<not> mutex (futs c' ! i)" by (auto simp: lock_ok_def terminal_def)
    with th(2,3) i assms(4) 1(1)
    have b: "futs (step c' (Run s)) ! n = NewFuture None (Closure i k)"
      by (simp add: Start_def Start_locked_def Let_def set_pc_def set_fut_def spawn_def nth_append
          nth_update_any)
    have "started (futs (step (exec c' ds) (Run s)) ! i)" for ds
    proof -
      let ?d = "exec c' ds"
      have "?d = exec init ((as @ [Run t]) @ ds)" unfolding r exec_append ..
      then have od: "own ?d" and ld: "lock_ok ?d" by (simp_all only: own_reach lock_ok_reach)
      from Start_thread_exec [OF o' th(2,3), of ds]
      have sl: "s < length (threads ?d)"
        and "threads ?d ! s = Start_enter i \<or> threads ?d ! s = Start_done i \<and> started (futs ?d ! i)"
        by simp_all
      then show ?thesis
      proof (elim disjE)
        assume "threads ?d ! s = Start_enter i"
        from Start_enter_starts [OF od ld sl this] show ?thesis .
      next
        assume "threads ?d ! s = Start_done i \<and> started (futs ?d ! i)"
        with sl show ?thesis by simp
      qed
    qed
    with th(3) a b 1(2) show ?thesis by simp
  qed
  from 1 2(1-3) 3 4 5 forget_exec [OF o, of bs] show ?thesis by blast
qed

lemma then_on_fresh_eq:
  "then_on_fresh =
     \<lparr>futs = [\<lparr>task = Supplied (Some (Some 1, None)), mutex = False, result = None, err = None,
               state = Pending, done_ch = False, next_fut = None, onSuccess = [], onFailure = [],
               started = False\<rparr>],
      threads = [Then_enter 0 (\<lambda>res. Some (res, None))],
      trace = []\<rparr>"
  by (simp add: then_on_fresh_def exec_defs)

theorem Then_returns_an_unstarted_future_witness:
  "0 < length (threads then_on_fresh) \<and> threads then_on_fresh ! 0 = Then_enter 0 (\<lambda>res. Some (res, None)) \<and>
   length (futs then_on_fresh) = 1 \<and> \<not> mutex (futs then_on_fresh ! 0) \<and>
   \<not> started (futs then_on_fresh ! 0) \<and>
   state (futs then_on_fresh_1 ! 1) = Pending \<and> \<not> started (futs then_on_fresh_1 ! 1) \<and>
   threads then_on_fresh_1 = [Then_link 0 1, Start_enter 0] \<and>
   threads then_on_fresh_2 ! 0 = Then_done 0 1 \<and> next_fut (futs then_on_fresh_2 ! 0) = Some 1 \<and>
   trace then_on_fresh_2 = [] \<and>
   started (futs (step then_on_fresh_1 (Run 1)) ! 0) \<and>
   state (futs (step then_on_fresh_1 (Run 1)) ! 0) = Running \<and>
   threads (step then_on_fresh_1 (Run 1)) = [Then_link 0 1, Start_done 0, Go_task 0] \<and>
   started (futs (step then_on_fresh_2 (Run 1)) ! 0)"
proof -
  have h: "0 < length (threads then_on_fresh)"
    "threads then_on_fresh ! 0 = Then_enter 0 (\<lambda>res. Some (res, None))"
    "length (futs then_on_fresh) = 1" "\<not> mutex (futs then_on_fresh ! 0)"
    "\<not> started (futs then_on_fresh ! 0)" "trace then_on_fresh = []"
    "threads then_on_fresh = [Then_enter 0 (\<lambda>res. Some (res, None))]"
    "length (threads then_on_fresh) = 1"
    by (simp_all add: then_on_fresh_eq)
  have e: "then_on_fresh_2 = exec then_on_fresh_1 [Run 0]"
    by (simp add: then_on_fresh_2_def exec_def)
  from Then_returns_an_unstarted_future [OF then_on_fresh_def h(1,2) h(3) [symmetric] then_on_fresh_1_def
      then_on_fresh_2_def h(8) [symmetric]] h(4,5)
  have "state (futs then_on_fresh_1 ! 1) = Pending" "\<not> started (futs then_on_fresh_1 ! 1)"
    "threads then_on_fresh_1 =
      (threads then_on_fresh)[0 := Then_link 0 1] @
      (if started (futs then_on_fresh ! 0) then [] else [Start_enter 0])"
    "threads then_on_fresh_2 ! 0 = Then_done 0 1" "next_fut (futs then_on_fresh_2 ! 0) = Some 1"
    "trace then_on_fresh_2 = trace then_on_fresh"
    "started (futs (step then_on_fresh_1 (Run 1)) ! 0)"
    "state (futs (step then_on_fresh_1 (Run 1)) ! 0) = Running"
    "threads (step then_on_fresh_1 (Run 1)) =
      (threads then_on_fresh)[0 := Then_link 0 1] @ [Start_done 0, Go_task 0]"
    "started (futs (step (exec then_on_fresh_1 [Run 0]) (Run 1)) ! 0)"
    by blast+
  with h e show ?thesis by simp
qed

section \<open>Progress\<close>

lemma list_all_nth: "list_all P xs \<Longrightarrow> i < length xs \<Longrightarrow> P (xs ! i)"
  by (simp add: list_all_length)

lemma list_all_take: "list_all P xs \<Longrightarrow> list_all P (take n xs)"
  by (auto simp: list_all_iff dest: in_set_takeD)

lemma expected_cong:
  "(\<And>j. j \<le> i \<Longrightarrow> task (fs' ! j) = task (fs ! j)) \<Longrightarrow> expected fs' i = expected fs i"
proof (induction i rule: less_induct)
  case (less i)
  have t: "task (fs' ! i) = task (fs ! i)" using less.prems by simp
  show ?case
  proof (cases "task (fs ! i)")
    case (Supplied out)
    with t show ?thesis by (simp add: expected.simps [of _ i])
  next
    case (Closure f k)
    show ?thesis
    proof (cases "f < i")
      case True
      from less.IH [OF True] less.prems True have "expected fs' f = expected fs f" by simp
      with t Closure True show ?thesis by (simp add: expected.simps [of _ i])
    next
      case False
      with t Closure show ?thesis by (simp add: expected.simps [of _ i])
    qed
  qed
qed

lemma expected_step:
  assumes "own c" "i < length (futs c)"
  shows "expected (futs (step c a)) i = expected (futs c) i"
proof (rule expected_cong)
  fix j assume "j \<le> i"
  with assms(2) have "j < length (futs c)" by simp
  from ext_step [OF assms(1) this, of a] show "task (futs (step c a) ! j) = task (futs c ! j)"
    by (simp add: ext_def)
qed

lemma expected_exec:
  assumes "own c" "i < length (futs c)"
  shows "expected (futs (exec c as)) i = expected (futs c) i"
proof (rule expected_cong)
  fix j assume "j \<le> i"
  with assms(2) have "j < length (futs c)" by simp
  from ext_exec [OF assms(1) this, of as] show "task (futs (exec c as) ! j) = task (futs c ! j)"
    by (simp add: ext_def)
qed

text \<open>Callback lists only grow at the end.\<close>

lemma lists_grow_run:
  "j < length (futs c) \<Longrightarrow>
   take (length (onSuccess (futs c ! j))) (onSuccess (futs (run t p c) ! j)) = onSuccess (futs c ! j) \<and>
   take (length (onFailure (futs c ! j))) (onFailure (futs (run t p c) ! j)) = onFailure (futs c ! j)"
  by (induction t p c rule: run.induct)
    (auto simp: run_defs nth_update_any nth_append
      split: task.splits option.splits prod.splits caller.splits if_splits)

lemma lists_grow_step:
  "j < length (futs c) \<Longrightarrow>
   take (length (onSuccess (futs c ! j))) (onSuccess (futs (step c a) ! j)) = onSuccess (futs c ! j) \<and>
   take (length (onFailure (futs c ! j))) (onFailure (futs (step c a) ! j)) = onFailure (futs c ! j)"
  using lists_grow_run [of j c]
  by (cases a) (auto simp: call_def nth_append)

lemma matching_step:
  assumes "own c" "j < length (futs c)" "list_all P (matching (futs (step c a)) j)"
  shows "list_all P (matching (futs c) j)"
proof -
  note e = expected_step [OF assms(1,2), of a] and g = lists_grow_step [OF assms(2), of a]
  show ?thesis
  proof (cases "expected (futs c) j")
    case None
    then show ?thesis by (simp add: matching_def)
  next
    case (Some r)
    obtain res er where r: "r = (res, er)" by (cases r)
    show ?thesis
    proof (cases er)
      case None
      with Some r e assms(3) have "list_all P (onSuccess (futs (step c a) ! j))"
        by (simp add: matching_def)
      from list_all_take [OF this, of "length (onSuccess (futs c ! j))"] g Some r None
      show ?thesis by (simp add: matching_def)
    next
      case (Some x)
      with \<open>expected (futs c) j = Some r\<close> r e assms(3)
      have "list_all P (onFailure (futs (step c a) ! j))"
        by (simp add: matching_def)
      from list_all_take [OF this, of "length (onFailure (futs c ! j))"] g
        \<open>expected (futs c) j = Some r\<close> r Some
      show ?thesis by (simp add: matching_def)
    qed
  qed
qed

lemma matching_terminal:
  assumes "own c" "sound c" "i < length (futs c)" "terminal (state (futs c ! i))"
  shows "matching (futs c) i =
    (if state (futs c ! i) = Fulfilled then onSuccess (futs c ! i) else onFailure (futs c ! i))"
proof -
  from outcome [OF assms] obtain res er where
    r: "expected (futs c) i = Some (res, er)"
      "case er of
         None \<Rightarrow> state (futs c ! i) = Fulfilled \<and> result (futs c ! i) = res \<and> err (futs c ! i) = None
       | Some x \<Rightarrow> state (futs c ! i) = Rejected \<and> err (futs c ! i) = Some x"
    by blast
  then show ?thesis by (cases er) (simp_all add: matching_def)
qed

lemma matching_fired:
  assumes "own c" "sound c" "t < length (threads c)"
    "threads c ! t = Go_succ i ks v \<or> threads c ! t = Go_fail i ks e"
  shows "\<exists>pre. matching (futs c) i = pre @ ks"
proof -
  from own_thread [OF assms(1,3)] assms(4) have i: "i < length (futs c)"
    by (auto simp: thread_ok_def)
  from sound_thread [OF assms(2,3)] assms(4)
  have "state (futs c ! i) = Fulfilled \<and> (\<exists>pre. onSuccess (futs c ! i) = pre @ ks) \<or>
    state (futs c ! i) = Rejected \<and> (\<exists>pre. onFailure (futs c ! i) = pre @ ks)"
    by (auto simp: tinv_def)
  with matching_terminal [OF assms(1,2) i] show ?thesis by auto
qed

lemma Start_spawns_run:
  "i < length (futs c) \<Longrightarrow> state (futs c ! i) = Pending \<Longrightarrow> state (futs (run t p c) ! i) \<noteq> Pending \<Longrightarrow>
   t < length (threads c) \<Longrightarrow>
   length (threads c) < length (threads (run t p c)) \<and>
   threads (run t p c) ! length (threads c) = Go_task i"
  by (induction t p c rule: run.induct)
    (auto simp: run_defs nth_update_any nth_append
      split: task.splits option.splits prod.splits caller.splits if_splits)

text \<open>
  A goroutine stays with its future until the close, unless the computation or a callback
  it fires does not return.
\<close>

lemma owner_keeps_run:
  assumes "own c" "sound c" "t < length (threads c)" "owner (threads c ! t) = Some i"
  shows "owner (threads (run t (threads c ! t) c) ! t) = Some i \<or>
    done_ch (futs (run t (threads c ! t) c) ! i) \<or> expected (futs c) i = None \<or>
    \<not> list_all cb_returns (matching (futs c) i)"
proof -
  note tk = own_thread [OF assms(1,3)] and ti = sound_thread [OF assms(2,3)]
  from tk assms(4) have i: "i < length (futs c)" "\<not> done_ch (futs c ! i)"
    by (auto simp: thread_ok_def)
  show ?thesis
  proof (cases "threads c ! t")
    case (Go_task j)
    with assms(3,4) show ?thesis
      by (auto simp: Let_def expected.simps [of _ i] split: task.splits option.splits)
  next
    case (Go_lock j res er)
    with assms(3,4) tk show ?thesis
      by (auto simp: Let_def complete_def thread_ok_def)
  next
    case (Go_fail j ks er)
    with assms(4) have j: "j = i" by simp
    from matching_fired [OF assms(1,2,3), where i = i and ks = ks and e = er] Go_fail j
    obtain pre where "matching (futs c) i = pre @ ks" by auto
    with Go_fail j assms(3) i show ?thesis
      by (cases ks) (auto simp: close_done_def Let_def)
  next
    case (Go_succ j ks res)
    with assms(4) have j: "j = i" by simp
    from matching_fired [OF assms(1,2,3), where i = i and ks = ks and v = res] Go_succ j
    obtain pre where "matching (futs c) i = pre @ ks" by auto
    with Go_succ j assms(3) i show ?thesis
      by (cases ks) (auto simp: close_done_def Let_def)
  next
    case (Result_enter f w)
    with assms(3,4) show ?thesis by (cases w) auto
  next
    case (Result_start f w)
    with assms(3,4) show ?thesis
      by (cases w) (auto simp: Start_def Start_locked_def Let_def nth_append)
  next
    case (Result_wait f w)
    with assms(3,4) show ?thesis by (cases w) auto
  next
    case (Result_read f w)
    with assms(3,4) show ?thesis by (cases w) (auto simp: Let_def)
  next
    case (Closure_test j k v er)
    with assms(4) have j: "j = i" by simp
    from ti Closure_test j obtain f where f: "task (futs c ! i) = Closure f k" "done_ch (futs c ! f)"
      "v = result (futs c ! f)" "er = err (futs c ! f)"
      by (auto simp: tinv_def)
    from own_parent [OF assms(1) i(1) f(1)] i(1) have fl: "f < i" "f < length (futs c)" by simp_all
    show ?thesis
    proof (cases "er = None \<and> k v = None")
      case False
      with Closure_test j assms(3) show ?thesis by (auto simp: Let_def split: option.splits)
    next
      case True
      with f(4) outcome [OF assms(1,2) fl(2) own_done_terminal [OF assms(1) fl(2) f(2)]] f(3)
      have "expected (futs c) f = Some (v, None)"
        using sound_fut [OF assms(2) fl(2)] by (auto simp: finv_def split: option.splits)
      with f(1) fl(1) True have "expected (futs c) i = None"
        by (simp add: expected.simps [of _ i])
      then show ?thesis by simp
    qed
  qed (use assms(4) in simp_all)
qed

lemma new_future_Pending_run:
  "length (futs c) \<le> i \<Longrightarrow> i < length (futs (run t p c)) \<Longrightarrow> state (futs (run t p c) ! i) = Pending"
  by (induction t p c rule: run.induct)
    (auto simp: run_defs nth_update_any nth_append
      split: task.splits option.splits prod.splits caller.splits if_splits)

lemma new_future_Pending:
  "length (futs c) \<le> i \<Longrightarrow> i < length (futs (step c a)) \<Longrightarrow> state (futs (step c a) ! i) = Pending"
  using new_future_Pending_run [of c i]
  by (cases a) (auto simp: call_def NewFuture_def nth_append split: if_splits)

lemma alive_init: "alive init"
  by (simp add: alive_def init_def)

lemma alive_step:
  assumes "own c" "sound c" "alive c"
  shows "alive (step c a)"
  unfolding alive_def
proof (intro allI impI)
  fix i
  assume i: "i < length (futs (step c a))" and s: "state (futs (step c a) ! i) \<noteq> Pending"
    and d: "\<not> done_ch (futs (step c a) ! i)" and e: "expected (futs (step c a)) i \<noteq> None"
    and m: "list_all cb_returns (matching (futs (step c a)) i)"
  from new_future_Pending [of c i a] i s have il: "i < length (futs c)" by force
  from e expected_step [OF assms(1) il, of a] have e0: "expected (futs c) i \<noteq> None" by simp
  from d ext_step [OF assms(1) il, of a] have d0: "\<not> done_ch (futs c ! i)" by (auto simp: ext_def)
  from matching_step [OF assms(1) il m] have m0: "list_all cb_returns (matching (futs c) i)" .
  note len = length_threads_step [of c a]
  show "\<exists>t < length (threads (step c a)). owner (threads (step c a) ! t) = Some i"
  proof (cases "state (futs c ! i) = Pending")
    case True
    with s obtain t where a: "a = Run t" "t < length (threads c)"
      by (cases a) (auto simp: call_def NewFuture_def nth_append il split: if_splits)
    from Start_spawns_run [OF il True _ a(2), of "threads c ! t"] s a
    have "length (threads c) < length (threads (step c a))"
      "threads (step c a) ! length (threads c) = Go_task i" by simp_all
    then show ?thesis by (intro exI [of _ "length (threads c)"]) simp
  next
    case False
    with assms(3) il d0 e0 m0 obtain t where t: "t < length (threads c)" "owner (threads c ! t) = Some i"
      by (auto simp: alive_def)
    show ?thesis
    proof (cases "a = Run t")
      case True
      from owner_keeps_run [OF assms(1,2) t] True t(1) d e0 m0
      have "owner (threads (step c a) ! t) = Some i" by simp
      with t(1) len show ?thesis by (intro exI [of _ t]) simp
    next
      case False
      from other_thread_step [OF t(1) False] t(2) have "owner (threads (step c a) ! t) = Some i" by simp
      with t(1) len show ?thesis by (intro exI [of _ t]) simp
    qed
  qed
qed

lemma alive_exec:
  assumes "own c" "sound c" "alive c"
  shows "alive (exec c as)"
proof (induction as rule: rev_induct)
  case Nil
  from assms(3) show ?case by simp
next
  case (snoc a as)
  from alive_step [OF own_exec [OF assms(1)] sound_exec [OF assms(1,2)] snoc] show ?case by simp
qed

lemma alive_reach: "alive (exec init as)"
  by (rule alive_exec [OF own_init sound_init alive_init])

declare needs.simps [simp del]

lemma owner_caller:
  "owner (Result_enter f w) = (case w of Client \<Rightarrow> None | Link i k \<Rightarrow> Some i)"
  "owner (Result_start f w) = (case w of Client \<Rightarrow> None | Link i k \<Rightarrow> Some i)"
  "owner (Result_wait f w) = (case w of Client \<Rightarrow> None | Link i k \<Rightarrow> Some i)"
  "owner (Result_read f w) = (case w of Client \<Rightarrow> None | Link i k \<Rightarrow> Some i)"
  by (cases w; simp)+

lemma own_pc_run:
  "t < length (threads c) \<Longrightarrow> owner (threads (run t p c) ! t) = Some i \<Longrightarrow> threads c ! t = p \<Longrightarrow>
   owner p = Some i \<and> ph (threads (run t p c) ! t) \<le> ph p"
  by (induction t p c rule: run.induct)
    (auto simp: run_defs ph_def nth_update_any nth_append owner_caller
      split: task.splits option.splits prod.splits caller.splits if_splits)

lemma spawn_from_Pending:
  "length (threads c) \<le> u \<Longrightarrow> u < length (threads (run t p c)) \<Longrightarrow> t < length (threads c) \<Longrightarrow>
   owner (threads (run t p c) ! u) = Some i \<Longrightarrow> state (futs c ! i) = Pending"
  by (induction t p c rule: run.induct)
    (auto simp: run_defs nth_update_any nth_append
      split: task.splits option.splits prod.splits caller.splits if_splits)

lemma ph_step:
  assumes "state (futs c ! i) \<noteq> Pending" "u < length (threads (step c a))"
    "owner (threads (step c a) ! u) = Some i"
  shows "u < length (threads c) \<and> owner (threads c ! u) = Some i \<and>
    ph (threads (step c a) ! u) \<le> ph (threads c ! u)"
proof (cases "a = Run u \<and> u < length (threads c)")
  case True
  with own_pc_run [of u c "threads c ! u" i] assms(3) show ?thesis by simp
next
  case False
  show ?thesis
  proof (cases "u < length (threads c)")
    case True
    with False have "a \<noteq> Run u" by simp
    from other_thread_step [OF True this] assms(3) True show ?thesis by simp
  next
    case n: False
    show ?thesis
    proof (cases a)
      case (Run t)
      with n assms(2) have t: "t < length (threads c)" by (auto split: if_splits)
      from spawn_from_Pending [of c u t "threads c ! t" i] n assms Run t show ?thesis by simp
    qed (use n assms(2,3) in \<open>auto simp: call_def nth_append split: if_splits\<close>)
  qed
qed

lemma started_step:
  "i < length (futs c) \<Longrightarrow> state (futs c ! i) \<noteq> Pending \<Longrightarrow> state (futs (step c a) ! i) \<noteq> Pending"
  using forward_step [of i c a] by (auto simp: forward_def)

lemma started_exec:
  "i < length (futs c) \<Longrightarrow> state (futs c ! i) \<noteq> Pending \<Longrightarrow> state (futs (exec c as) ! i) \<noteq> Pending"
proof (induction as rule: rev_induct)
  case Nil
  then show ?case by simp
next
  case (snoc a as)
  from snoc.prems(1) length_futs_exec [of c as] have "i < length (futs (exec c as))" by simp
  from started_step [OF this] snoc show ?case by simp
qed

lemma ph_exec:
  assumes "i < length (futs c)" "state (futs c ! i) \<noteq> Pending"
    and "\<forall>u < length (threads c). owner (threads c ! u) = Some i \<longrightarrow> ph (threads c ! u) \<le> m"
  shows "\<forall>u < length (threads (exec c as)). owner (threads (exec c as) ! u) = Some i \<longrightarrow>
    ph (threads (exec c as) ! u) \<le> m"
proof (induction as rule: rev_induct)
  case Nil
  then show ?case using assms(3) by simp
next
  case (snoc a as)
  show ?case
  proof (intro allI impI)
    fix u assume u: "u < length (threads (exec c (as @ [a])))"
      "owner (threads (exec c (as @ [a])) ! u) = Some i"
    from ph_step [OF started_exec [OF assms(1,2), of as], of u a] u
    have "u < length (threads (exec c as))" "owner (threads (exec c as) ! u) = Some i"
      "ph (threads (exec c (as @ [a])) ! u) \<le> ph (threads (exec c as) ! u)"
      by simp_all
    with snoc show "ph (threads (exec c (as @ [a])) ! u) \<le> m" by force
  qed
qed

text \<open>
  A step of a goroutine that is neither in the loop over the callbacks nor waiting for an open
  channel or a held mutex brings it nearer to the close.
\<close>

lemma progress:
  assumes "own c" "lock_ok c" "t < length (threads c)" "owner (threads c ! t) = Some i"
    "\<not> firing (threads c ! t)" "\<not> blocked c (threads c ! t)"
    "\<And>f w. threads c ! t = Result_start f w \<or> threads c ! t = Result_read f w \<Longrightarrow>
      \<not> mutex (futs c ! f)"
    "owner (threads (step c (Run t)) ! t) = Some i"
  shows "ph (threads (step c (Run t)) ! t) < ph (threads c ! t)"
proof -
  note tk = own_thread [OF assms(1,3)]
  show ?thesis
  proof (cases "threads c ! t")
    case (Go_task j)
    with assms(3,8) show ?thesis
      by (auto simp: ph_def Let_def split: task.splits option.splits)
  next
    case (Go_lock j res er)
    with tk have "j < length (futs c)" "state (futs c ! j) = Running" by (simp_all add: thread_ok_def)
    with assms(2) have "\<not> mutex (futs c ! j)" by (auto simp: lock_ok_def terminal_def)
    with Go_lock assms(3,8) tk show ?thesis
      by (auto simp: ph_def Let_def complete_def thread_ok_def)
  next
    case (Result_enter f w)
    with assms(3,8) show ?thesis by (auto simp: ph_def)
  next
    case (Result_start f w)
    with assms(7) have "\<not> mutex (futs c ! f)" by simp
    with Result_start assms(3,8) tk show ?thesis
      by (auto simp: ph_def Start_def Start_locked_def Let_def thread_ok_def nth_append)
  next
    case (Result_wait f w)
    with assms(3,6,8) show ?thesis by (auto simp: ph_def blocked_def)
  next
    case (Result_read f w)
    with assms(7) have "\<not> mutex (futs c ! f)" by simp
    with Result_read assms(3,8) tk show ?thesis
      by (cases w) (auto simp: ph_def Let_def thread_ok_def)
  next
    case (Closure_test j k v er)
    with assms(3,8) show ?thesis
      by (auto simp: ph_def Let_def split: option.splits if_splits)
  qed (use assms(4,5) in simp_all)
qed

text \<open>Only a registration changes a callback list or leaves a mutex held.\<close>

lemma lists_kept_run:
  "\<not> registering p \<Longrightarrow> j < length (futs c) \<Longrightarrow>
   mutex (futs (run t p c) ! j) = mutex (futs c ! j) \<and>
   onSuccess (futs (run t p c) ! j) = onSuccess (futs c ! j) \<and>
   onFailure (futs (run t p c) ! j) = onFailure (futs c ! j)"
  by (induction t p c rule: run.induct)
    (auto simp: run_defs registering_def nth_update_any nth_append
      split: task.splits option.splits prod.splits caller.splits if_splits)

lemma lists_kept_step:
  assumes "t < length (threads c) \<longrightarrow> \<not> registering (threads c ! t)" "j < length (futs c)"
  shows "mutex (futs (step c (Run t)) ! j) = mutex (futs c ! j) \<and>
    onSuccess (futs (step c (Run t)) ! j) = onSuccess (futs c ! j) \<and>
    onFailure (futs (step c (Run t)) ! j) = onFailure (futs c ! j)"
  using assms lists_kept_run [of "threads c ! t" j c t] by simp

lemma matching_kept:
  assumes "own c" "t < length (threads c) \<longrightarrow> \<not> registering (threads c ! t)" "j < length (futs c)"
  shows "matching (futs (step c (Run t))) j = matching (futs c) j"
  using expected_step [OF assms(1,3), of "Run t"] lists_kept_step [OF assms(2,3)]
  by (auto simp add: matching_def simp del: step.simps split: option.splits)

lemma waits_step:
  assumes "own c" "j < length (futs c)" "waits (step c a) j"
  shows "waits c j"
proof -
  from assms(3) ext_step [OF assms(1,2), of a] have d: "\<not> done_ch (futs c ! j)"
    by (auto simp: waits_def ext_def)
  show ?thesis
  proof (cases "state (futs c ! j) = Pending")
    case True
    with d show ?thesis by (simp add: waits_def)
  next
    case False
    from started_step [OF assms(2) False, of a] assms(3)
    obtain p where "p \<in> set (threads (step c a))" "owner p = Some j" "4 \<le> ph p"
      by (auto simp: waits_def list_ex_iff)
    then obtain u where u: "u < length (threads (step c a))" "owner (threads (step c a) ! u) = Some j"
      "4 \<le> ph (threads (step c a) ! u)"
      by (auto simp: in_set_conv_nth)
    from ph_step [OF False u(1,2)] u(3)
    have "u < length (threads c)" "owner (threads c ! u) = Some j" "4 \<le> ph (threads c ! u)"
      by simp_all
    then have "list_ex (\<lambda>p. owner p = Some j \<and> 4 \<le> ph p) (threads c)"
      unfolding list_ex_iff using nth_mem by blast
    with d show ?thesis by (simp add: waits_def)
  qed
qed

lemma fine_run:
  assumes "fine S c" "t < length (threads c) \<longrightarrow> \<not> registering (threads c ! t)"
  shows "fine S (step c (Run t))"
proof -
  let ?y = "step c (Run t)"
  from assms(1) have o: "own c" and sd: "sound c" and al: "alive c" and l: "lock_ok c"
    and b: "\<And>j. S j \<Longrightarrow> j < length (futs c)"
    and m: "\<And>j. S j \<Longrightarrow> list_all cb_returns (matching (futs c) j)"
    and e: "\<And>j f k. S j \<Longrightarrow> waits c j \<Longrightarrow> task (futs c ! j) = Closure f k \<Longrightarrow>
      S f \<and> \<not> mutex (futs c ! f)"
    by (auto simp: fine_def)
  have 1: "S j \<longrightarrow> j < length (futs ?y) \<and> list_all cb_returns (matching (futs ?y) j)" for j
    using b [of j] m [of j] matching_kept [OF o assms(2), of j] length_futs_step [of c "Run t"]
    by auto
  have 2: "S f \<and> \<not> mutex (futs ?y ! f)"
    if "S j" "waits ?y j" "task (futs ?y ! j) = Closure f k" for j f k
  proof -
    from ext_step [OF o b [OF that(1)], of "Run t"] that(3) have "task (futs c ! j) = Closure f k"
      by (simp add: ext_def)
    from e [OF that(1) waits_step [OF o b [OF that(1)] that(2)] this]
    have "S f" "\<not> mutex (futs c ! f)" by simp_all
    with lists_kept_step [OF assms(2) b [OF this(1)]] show ?thesis by simp
  qed
  from own_step [OF o, of "Run t"] sound_step [OF o sd, of "Run t"] alive_step [OF o sd al, of "Run t"]
    lock_ok_step [OF l, of "Run t"] 1 2
  show ?thesis unfolding fine_def by blast
qed

lemma clients_kept_refl [simp]: "clients_kept c c"
  by (simp add: clients_kept_def)

lemma clients_kept_trans: "clients_kept c c' \<Longrightarrow> clients_kept c' c'' \<Longrightarrow> clients_kept c c''"
  by (auto simp: clients_kept_def)

lemma clients_kept_step:
  assumes "t < length (threads c)" "owner (threads c ! t) = Some i"
  shows "clients_kept c (step c (Run t))"
proof -
  have "threads (step c (Run t)) ! u = threads c ! u"
    if "u < length (threads c)" "owner (threads c ! u) = None" for u
  proof -
    from that(2) assms(2) have "Run t \<noteq> Run u" by auto
    from other_thread_step [OF that(1) this] show ?thesis .
  qed
  moreover from assms(2) have "\<not> registering (threads c ! t)"
    by (cases "threads c ! t") (simp_all add: registering_def)
  then have "mutex (futs (step c (Run t)) ! j) = mutex (futs c ! j)" if "j < length (futs c)" for j
    using lists_kept_step [of t c j] that by simp
  ultimately show ?thesis
    using length_threads_step [of c "Run t"] length_futs_step [of c "Run t"]
    unfolding clients_kept_def by blast
qed

lemma owner_not_registering: "owner p = Some i \<Longrightarrow> \<not> registering p"
  by (cases p) (simp_all add: registering_def)

lemma exec_runs_Cons: "exec c (map Run (t # ts)) = exec (step c (Run t)) (map Run ts)"
  by (simp add: exec_Cons)

lemma reaches_now: "fine S c \<Longrightarrow> done_ch (futs c ! i) \<Longrightarrow> reaches S c i"
  unfolding reaches_def by (intro exI [of _ "[]"]) simp

lemma reaches_step:
  assumes "t < length (threads c)" "owner (threads c ! t) = Some j" "reaches S (step c (Run t)) i"
  shows "reaches S c i"
proof -
  from assms(3) obtain ts where ts: "done_ch (futs (exec (step c (Run t)) (map Run ts)) ! i)"
    "clients_kept (step c (Run t)) (exec (step c (Run t)) (map Run ts))"
    "fine S (exec (step c (Run t)) (map Run ts))"
    by (auto simp: reaches_def)
  from clients_kept_trans [OF clients_kept_step [OF assms(1,2)] ts(2)] ts(1,3)
  show ?thesis unfolding reaches_def exec_runs_Cons [symmetric] by blast
qed

lemma reaches_after:
  assumes "clients_kept c (exec c (map Run ts))" "reaches S (exec c (map Run ts)) i"
  shows "reaches S c i"
proof -
  from assms(2) obtain us where us: "done_ch (futs (exec (exec c (map Run ts)) (map Run us)) ! i)"
    "clients_kept (exec c (map Run ts)) (exec (exec c (map Run ts)) (map Run us))"
    "fine S (exec (exec c (map Run ts)) (map Run us))"
    by (auto simp: reaches_def)
  from clients_kept_trans [OF assms(1) us(2)] us(1,3)
  show ?thesis unfolding reaches_def by (intro exI [of _ "ts @ us"]) (simp add: exec_append)
qed

lemma fine_own: "fine S c \<Longrightarrow> own c" and fine_sound: "fine S c \<Longrightarrow> sound c"
  and fine_alive: "fine S c \<Longrightarrow> alive c" and fine_lock: "fine S c \<Longrightarrow> lock_ok c"
  and fine_bound: "fine S c \<Longrightarrow> S j \<Longrightarrow> j < length (futs c)"
  and fine_matching: "fine S c \<Longrightarrow> S j \<Longrightarrow> list_all cb_returns (matching (futs c) j)"
  by (simp_all add: fine_def)

lemma fine_parent:
  "fine S c \<Longrightarrow> S j \<Longrightarrow> waits c j \<Longrightarrow> task (futs c ! j) = Closure f k \<Longrightarrow>
   S f \<and> \<not> mutex (futs c ! f)"
  unfolding fine_def by blast

lemma fine_owner_run:
  "fine S c \<Longrightarrow> t < length (threads c) \<Longrightarrow> owner (threads c ! t) = Some i \<Longrightarrow>
   fine S (step c (Run t))"
  by (rule fine_run) (simp_all add: owner_not_registering)

text \<open>The loop over the snapshot ends, and the close follows it.\<close>

lemma fire_success:
  "fine S c \<Longrightarrow> S i \<Longrightarrow> t < length (threads c) \<Longrightarrow> threads c ! t = Go_succ i ks res \<Longrightarrow>
   reaches S c i"
proof (induction ks arbitrary: c)
  case Nil
  from own_thread [OF fine_own [OF Nil(1)] Nil(3)] Nil(4)
  have i: "i < length (futs c)" "\<not> done_ch (futs c ! i)" by (simp_all add: thread_ok_def)
  with Nil(3,4) have d: "done_ch (futs (step c (Run t)) ! i)"
    by (simp add: close_done_def Let_def set_pc_def set_fut_def emit_def)
  from fine_owner_run [OF Nil(1,3)] Nil(4) have "fine S (step c (Run t))" by simp
  from reaches_step [OF Nil(3) _ reaches_now [OF this d]] Nil(4) show ?case by simp
next
  case (Cons k ks)
  from matching_fired [OF fine_own [OF Cons.prems(1)] fine_sound [OF Cons.prems(1)] Cons.prems(3),
      where i = i and ks = "k # ks" and v = res] Cons.prems(4)
  obtain pre where "matching (futs c) i = pre @ k # ks" by auto
  with fine_matching [OF Cons.prems(1,2)] have "cb_returns k" by simp
  with Cons.prems(3,4) have "threads (step c (Run t)) ! t = Go_succ i ks res"
    "t < length (threads (step c (Run t)))"
    by (simp_all add: set_pc_def emit_def)
  moreover from fine_owner_run [OF Cons.prems(1,3)] Cons.prems(4) have "fine S (step c (Run t))"
    by simp
  ultimately have "reaches S (step c (Run t)) i" using Cons.IH Cons.prems(2) by blast
  from reaches_step [OF Cons.prems(3) _ this] Cons.prems(4) show ?case by simp
qed

lemma fire_failure:
  "fine S c \<Longrightarrow> S i \<Longrightarrow> t < length (threads c) \<Longrightarrow> threads c ! t = Go_fail i ks er \<Longrightarrow>
   reaches S c i"
proof (induction ks arbitrary: c)
  case Nil
  from own_thread [OF fine_own [OF Nil(1)] Nil(3)] Nil(4)
  have i: "i < length (futs c)" "\<not> done_ch (futs c ! i)" by (simp_all add: thread_ok_def)
  with Nil(3,4) have d: "done_ch (futs (step c (Run t)) ! i)"
    by (simp add: close_done_def Let_def set_pc_def set_fut_def emit_def)
  from fine_owner_run [OF Nil(1,3)] Nil(4) have "fine S (step c (Run t))" by simp
  from reaches_step [OF Nil(3) _ reaches_now [OF this d]] Nil(4) show ?case by simp
next
  case (Cons k ks)
  from matching_fired [OF fine_own [OF Cons.prems(1)] fine_sound [OF Cons.prems(1)] Cons.prems(3),
      where i = i and ks = "k # ks" and e = er] Cons.prems(4)
  obtain pre where "matching (futs c) i = pre @ k # ks" by auto
  with fine_matching [OF Cons.prems(1,2)] have "cb_returns k" by simp
  with Cons.prems(3,4) have "threads (step c (Run t)) ! t = Go_fail i ks er"
    "t < length (threads (step c (Run t)))"
    by (simp_all add: set_pc_def emit_def)
  moreover from fine_owner_run [OF Cons.prems(1,3)] Cons.prems(4) have "fine S (step c (Run t))"
    by simp
  ultimately have "reaches S (step c (Run t)) i" using Cons.IH Cons.prems(2) by blast
  from reaches_step [OF Cons.prems(3) _ this] Cons.prems(4) show ?case by simp
qed

lemma fire:
  assumes "fine S c" "S i" "t < length (threads c)" "firing (threads c ! t)"
    "owner (threads c ! t) = Some i"
  shows "reaches S c i"
  using assms fire_success [of S c i t] fire_failure [of S c i t]
  by (cases "threads c ! t") auto

text \<open>
  The future that a goroutine calls \<open>Result\<close> on is the parent of its own, it belongs to the
  set, and its mutex is free.
\<close>

lemma calls_parent:
  assumes "fine S c" "S i" "t < length (threads c)"
    "threads c ! t = Result_enter f (Link i k) \<or> threads c ! t = Result_start f (Link i k) \<or>
     threads c ! t = Result_wait f (Link i k) \<or> threads c ! t = Result_read f (Link i k)"
  shows "task (futs c ! i) = Closure f k \<and> f < i \<and> S f \<and> \<not> mutex (futs c ! f)"
proof -
  from assms(4) have o: "owner (threads c ! t) = Some i" "4 \<le> ph (threads c ! t)"
    by (auto simp: ph_def)
  from sound_thread [OF fine_sound [OF assms(1)] assms(3)] assms(4)
  have l: "task (futs c ! i) = Closure f k" by (auto simp: tinv_def linked_def)
  from own_thread [OF fine_own [OF assms(1)] assms(3)] o(1)
  have i: "i < length (futs c)" "\<not> done_ch (futs c ! i)" by (simp_all add: thread_ok_def)
  from o assms(3) have "list_ex (\<lambda>p. owner p = Some i \<and> 4 \<le> ph p) (threads c)"
    unfolding list_ex_iff using nth_mem by blast
  with i(2) have "waits c i" by (simp add: waits_def)
  from fine_parent [OF assms(1,2) this l] own_parent [OF fine_own [OF assms(1)] i(1) l] l
  show ?thesis by simp
qed

lemma blocked_parent:
  assumes "fine S c" "S i" "t < length (threads c)" "owner (threads c ! t) = Some i"
    "blocked c (threads c ! t)" "expected (futs c) i \<noteq> None"
  shows "\<exists>f k. threads c ! t = Result_wait f (Link i k) \<and> task (futs c ! i) = Closure f k \<and>
    f < i \<and> S f \<and> state (futs c ! f) \<noteq> Pending \<and> expected (futs c) f \<noteq> None"
proof -
  from assms(4,5) obtain f k where p: "threads c ! t = Result_wait f (Link i k)"
    by (cases "threads c ! t") (auto simp: blocked_def owner_caller split: caller.splits)
  from sound_thread [OF fine_sound [OF assms(1)] assms(3)] p
  have s: "state (futs c ! f) \<noteq> Pending" by (simp add: tinv_def)
  from calls_parent [OF assms(1,2,3), of f k] p
  have l: "task (futs c ! i) = Closure f k" "f < i" "S f" by simp_all
  from assms(6) l(1,2) have "expected (futs c) f \<noteq> None"
    by (auto simp: expected.simps [of _ i] split: option.splits)
  with p l s show ?thesis by simp
qed

lemma unlocked:
  assumes "fine S c" "S i" "t < length (threads c)" "owner (threads c ! t) = Some i"
    "threads c ! t = Result_start f w \<or> threads c ! t = Result_read f w"
  shows "\<not> mutex (futs c ! f)"
proof -
  from assms(4,5) obtain k where "w = Link i k" by (cases w) auto
  with calls_parent [OF assms(1,2,3), of f k] assms(5) show ?thesis by auto
qed

text \<open>
  A started future whose computation returns can be driven to the close of \<open>done\<close> by steps
  of goroutines alone: by its own goroutine and, where that one waits, by those of its
  ancestors.
\<close>

lemma drive:
  fixes c :: "('v, 'e) config"
  shows "fine S c \<Longrightarrow> S i \<Longrightarrow> state (futs c ! i) \<noteq> Pending \<Longrightarrow>
    expected (futs c) i \<noteq> None \<Longrightarrow> reaches S c i"
proof (induction i arbitrary: c rule: less_induct)
  case (less i)
  note outer = less.IH and start = less.prems
  have bounded: "reaches S d i"
    if "fine S d" "state (futs d ! i) \<noteq> Pending" "expected (futs d) i \<noteq> None"
      "\<forall>u < length (threads d). owner (threads d ! u) = Some i \<longrightarrow> ph (threads d ! u) \<le> m"
    for d :: "('v, 'e) config" and m
    using that
  proof (induction m arbitrary: d rule: less_induct)
    case (less m)
    note g = less.prems(1) and s = less.prems(2) and e = less.prems(3)
    note i = fine_bound [OF g start(2)]
    have b: "\<forall>u < length (threads d). owner (threads d ! u) = Some i \<longrightarrow> ph (threads d ! u) \<le> m"
      using less.prems(4) by blast
    have free: "reaches S x i"
      if x: "fine S x" "state (futs x ! i) \<noteq> Pending"
        "expected (futs x) i \<noteq> None" "\<not> done_ch (futs x ! i)"
        "t < length (threads x)" "owner (threads x ! t) = Some i" "\<not> blocked x (threads x ! t)"
        "ph (threads x ! t) \<le> m"
      for x :: "('v, 'e) config" and t
    proof (cases "firing (threads x ! t)")
      case True
      from fire [OF x(1) start(2) x(5) True x(6)] show ?thesis .
    next
      case False
      let ?y = "step x (Run t)"
      note ix = fine_bound [OF x(1) start(2)]
      have gy: "fine S ?y" by (rule fine_owner_run [OF x(1,5,6)])
      have sy: "state (futs ?y ! i) \<noteq> Pending" by (rule started_step [OF ix x(2)])
      have ey: "expected (futs ?y) i \<noteq> None"
        using expected_step [OF fine_own [OF x(1)] ix, of "Run t"] x(3) by simp
      have pr: "ph (threads ?y ! t) < ph (threads x ! t)" if "owner (threads ?y ! t) = Some i"
        using progress [OF fine_own [OF x(1)] fine_lock [OF x(1)] x(5,6) False x(7) _ that]
          unlocked [OF x(1) start(2) x(5,6)]
        by blast
      have bd: "\<forall>u < length (threads ?y). owner (threads ?y ! u) = Some i \<longrightarrow>
        ph (threads ?y ! u) \<le> ph (threads x ! t) - 1"
      proof (intro allI impI)
        fix u assume u: "u < length (threads ?y)" "owner (threads ?y ! u) = Some i"
        from ph_step [OF x(2) u] have v: "u < length (threads x)" "owner (threads x ! u) = Some i"
          by simp_all
        from fine_own [OF x(1)] v x(5,6) have "u = t"
          unfolding own_def uniq_def by blast
        with pr u(2) show "ph (threads ?y ! u) \<le> ph (threads x ! t) - 1" by simp
      qed
      show ?thesis
      proof (cases "ph (threads x ! t)")
        case 0
        from fine_alive [OF gy] fine_bound [OF gy start(2)] sy ey fine_matching [OF gy start(2)]
        have "done_ch (futs ?y ! i) \<or> (\<exists>u < length (threads ?y). owner (threads ?y ! u) = Some i)"
          unfolding alive_def by blast
        then show ?thesis
        proof
          assume "done_ch (futs ?y ! i)"
          from reaches_step [OF x(5,6) reaches_now [OF gy this]] show ?thesis .
        next
          assume "\<exists>u < length (threads ?y). owner (threads ?y ! u) = Some i"
          then obtain u where u: "u < length (threads ?y)" "owner (threads ?y ! u) = Some i" by blast
          from ph_step [OF x(2) u] have v: "u < length (threads x)" "owner (threads x ! u) = Some i"
            by simp_all
          from fine_own [OF x(1)] v x(5,6) have "u = t"
            unfolding own_def uniq_def by blast
          with pr u(2) 0 show ?thesis by simp
        qed
      next
        case (Suc n)
        with x(8) have "ph (threads x ! t) - 1 < m" by simp
        from less.IH [OF this gy sy ey bd] have "reaches S ?y i" .
        from reaches_step [OF x(5,6) this] show ?thesis .
      qed
    qed
    show ?case
    proof (cases "done_ch (futs d ! i)")
      case True
      with g show ?thesis by (rule reaches_now)
    next
      case nd: False
      from fine_alive [OF g] i s e nd fine_matching [OF g start(2)] obtain t where
        t: "t < length (threads d)" "owner (threads d ! t) = Some i"
        unfolding alive_def by blast
      from b t have pt: "ph (threads d ! t) \<le> m" by simp
      show ?thesis
      proof (cases "blocked d (threads d ! t)")
        case False
        from free [OF g s e nd t False pt] show ?thesis .
      next
        case True
        from blocked_parent [OF g start(2) t True e] obtain f k where
          f: "threads d ! t = Result_wait f (Link i k)" "task (futs d ! i) = Closure f k" "f < i"
            "S f" "state (futs d ! f) \<noteq> Pending" "expected (futs d) f \<noteq> None"
          by blast
        from outer [OF f(3) g f(4,5,6)]
        obtain ts where ts: "done_ch (futs (exec d (map Run ts)) ! f)"
          "clients_kept d (exec d (map Run ts))" "fine S (exec d (map Run ts))"
          unfolding reaches_def by blast
        let ?x = "exec d (map Run ts)"
        note gx = ts(3)
        have ix: "i < length (futs ?x)" by (rule fine_bound [OF gx start(2)])
        have sx: "state (futs ?x ! i) \<noteq> Pending" by (rule started_exec [OF i s])
        have ex: "expected (futs ?x) i \<noteq> None"
          using expected_exec [OF fine_own [OF g] i, of "map Run ts"] e by simp
        have tx: "task (futs ?x ! i) = Closure f k"
          using ext_exec [OF fine_own [OF g] i, of "map Run ts"] f(2) by (simp add: ext_def)
        have bx: "\<forall>u < length (threads ?x). owner (threads ?x ! u) = Some i \<longrightarrow>
          ph (threads ?x ! u) \<le> m"
          by (rule ph_exec [OF i s b])
        have "reaches S ?x i"
        proof (cases "done_ch (futs ?x ! i)")
          case True
          with gx show ?thesis by (rule reaches_now)
        next
          case ndx: False
          from fine_alive [OF gx] ix sx ex ndx fine_matching [OF gx start(2)] obtain u where
            u: "u < length (threads ?x)" "owner (threads ?x ! u) = Some i"
            unfolding alive_def by blast
          from bx u have pu: "ph (threads ?x ! u) \<le> m" by simp
          have "\<not> blocked ?x (threads ?x ! u)"
          proof
            assume w: "blocked ?x (threads ?x ! u)"
            from blocked_parent [OF gx start(2) u w ex] w tx ts(1) show False
              by (auto simp: blocked_def)
          qed
          from free [OF gx sx ex ndx u this pu] show ?thesis .
        qed
        from reaches_after [OF ts(2) this] show ?thesis .
      qed
    qed
  qed
  have "\<forall>u < length (threads c). owner (threads c ! u) = Some i \<longrightarrow> ph (threads c ! u) \<le> 8"
    by (auto simp: ph_def split: pc.splits)
  from bounded [OF start(1,3,4) this] show ?case .
qed

lemma needs_tail:
  assumes "j \<in> set (needs c i)" "j \<noteq> i"
  shows "\<exists>f k. task (futs c ! i) = Closure f k \<and> f < i \<and> waits c i \<and> j \<in> set (needs c f)"
proof (cases "task (futs c ! i)")
  case (Supplied out)
  with assms show ?thesis by (simp add: needs.simps [of c i])
next
  case (Closure f k)
  with assms show ?thesis by (simp add: needs.simps [of c i] split: if_splits)
qed

lemma needs_le: "j \<in> set (needs c i) \<Longrightarrow> j \<le> i"
proof (induction i rule: less_induct)
  case (less i)
  show ?case
  proof (cases "j = i")
    case False
    from needs_tail [OF less.prems this] obtain f k where
      f: "task (futs c ! i) = Closure f k" "f < i" "waits c i" "j \<in> set (needs c f)"
      by blast
    from less.IH [OF f(2,4)] f(2) show ?thesis by simp
  qed simp
qed

lemma needs_self: "i \<in> set (needs c i)"
  by (simp add: needs.simps [of c i])

lemma needs_parent:
  "j \<in> set (needs c i) \<Longrightarrow> waits c j \<Longrightarrow> task (futs c ! j) = Closure f k \<Longrightarrow> f < j \<Longrightarrow>
   f \<in> set (tl (needs c i))"
proof (induction i rule: less_induct)
  case (less i)
  show ?case
  proof (cases "j = i")
    case True
    with less.prems have "tl (needs c i) = needs c f" by (simp add: needs.simps [of c i])
    with needs_self [of f c] show ?thesis by simp
  next
    case False
    from needs_tail [OF less.prems(1) this] obtain g k' where
      g: "task (futs c ! i) = Closure g k'" "g < i" "waits c i" "j \<in> set (needs c g)"
      by blast
    from less.IH [OF g(2,4) less.prems(2,3,4)] have "f \<in> set (tl (needs c g))" .
    then have "f \<in> set (needs c g)" by (cases "needs c g") auto
    with g show ?thesis by (simp add: needs.simps [of c i])
  qed
qed

text \<open>In a reachable configuration, the futures a completion depends on form a set as above.\<close>

lemma unhindered_fine:
  assumes "c = exec init as" "i < length (futs c)" "unhindered c i"
  shows "fine (\<lambda>j. j \<in> set (needs c i)) c"
proof -
  have o: "own c" "sound c" "alive c" "lock_ok c"
    using assms(1) by (simp_all add: own_reach sound_reach alive_reach lock_ok_reach)
  have b: "j < length (futs c)" if "j \<in> set (needs c i)" for j
    using needs_le [OF that] assms(2) by simp
  have m: "list_all cb_returns (matching (futs c) j)" if "j \<in> set (needs c i)" for j
    using assms(3) that by (auto simp: unhindered_def list_all_iff)
  have e: "f \<in> set (needs c i) \<and> \<not> mutex (futs c ! f)"
    if "j \<in> set (needs c i)" "waits c j" "task (futs c ! j) = Closure f k" for j f k
  proof -
    from needs_parent [OF that own_parent [OF o(1) b [OF that(1)] that(3)]]
    have t: "f \<in> set (tl (needs c i))" .
    then have "f \<in> set (needs c i)" by (cases "needs c i") auto
    with t assms(3) show ?thesis by (auto simp: unhindered_def list_all_iff)
  qed
  from o b m e show ?thesis unfolding fine_def by blast
qed

lemma returns_step: "returns (step c (Run t)) u i \<Longrightarrow> returns c u i"
  unfolding returns_def exec_runs_Cons [symmetric] by blast

lemma returns_after:
  assumes "returns (exec c (map Run ts)) u i"
  shows "returns c u i"
proof -
  from assms obtain us v e where
    "u < length (threads (exec (exec c (map Run ts)) (map Run us)))"
    "threads (exec (exec c (map Run ts)) (map Run us)) ! u = Result_done i v e"
    unfolding returns_def by blast
  then have "u < length (threads (exec c (map Run (ts @ us))))"
    "threads (exec c (map Run (ts @ us))) ! u = Result_done i v e"
    by (simp_all add: exec_append)
  then show ?thesis unfolding returns_def by blast
qed

lemma returns_now:
  "u < length (threads c) \<Longrightarrow> threads c ! u = Result_done i v e \<Longrightarrow> returns c u i"
  unfolding returns_def by (intro exI [of _ "[]"]) simp

lemma from_read:
  assumes "u < length (threads c)" "threads c ! u = Result_read i Client" "\<not> mutex (futs c ! i)"
  shows "returns c u i"
proof -
  from assms
  have "u < length (threads (step c (Run u)))"
    "threads (step c (Run u)) ! u = Result_done i (result (futs c ! i)) (err (futs c ! i))"
    by (simp_all add: set_pc_def Let_def)
  from returns_step [OF returns_now [OF this]] show ?thesis .
qed

lemma from_wait:
  assumes "fine S c" "S i" "u < length (threads c)" "threads c ! u = Result_wait i Client"
    "expected (futs c) i \<noteq> None" "\<not> mutex (futs c ! i)"
  shows "returns c u i"
proof -
  note i = fine_bound [OF assms(1,2)]
  from sound_thread [OF fine_sound [OF assms(1)] assms(3)] assms(4)
  have "state (futs c ! i) \<noteq> Pending" by (simp add: tinv_def)
  from drive [OF assms(1,2) this assms(5)] obtain ts where
    ts: "done_ch (futs (exec c (map Run ts)) ! i)" "clients_kept c (exec c (map Run ts))"
    unfolding reaches_def by blast
  let ?x = "exec c (map Run ts)"
  from ts(2) assms(3,4,6) i
  have x: "u < length (threads ?x)" "threads ?x ! u = Result_wait i Client" "\<not> mutex (futs ?x ! i)"
    "i < length (futs ?x)"
    by (auto simp: clients_kept_def)
  with ts(1) have "u < length (threads (step ?x (Run u)))"
    "threads (step ?x (Run u)) ! u = Result_read i Client"
    "\<not> mutex (futs (step ?x (Run u)) ! i)"
    by (simp_all add: set_pc_def)
  from from_read [OF this] have "returns (step ?x (Run u)) u i" .
  from returns_after [OF returns_step [OF this]] show ?thesis .
qed

lemma from_start:
  assumes "fine S c" "S i" "u < length (threads c)" "threads c ! u = Result_start i Client"
    "expected (futs c) i \<noteq> None" "\<not> mutex (futs c ! i)"
  shows "returns c u i"
proof -
  note i = fine_bound [OF assms(1,2)]
  let ?y = "step c (Run u)"
  from assms(4) have r: "u < length (threads c) \<longrightarrow> \<not> registering (threads c ! u)"
    by (simp add: registering_def)
  from assms(6) assms(3,4) i
  have "u < length (threads ?y)" "threads ?y ! u = Result_wait i Client"
    by (simp_all add: Start_def Start_locked_def Let_def set_pc_def set_fut_def spawn_def nth_append)
  moreover from lists_kept_step [OF r i] assms(6) have "\<not> mutex (futs ?y ! i)" by simp
  moreover from expected_step [OF fine_own [OF assms(1)] i, of "Run u"] assms(5)
  have "expected (futs ?y) i \<noteq> None" by simp
  ultimately have "returns ?y u i"
    using from_wait [OF fine_run [OF assms(1) r] assms(2)] by blast
  from returns_step [OF this] show ?thesis .
qed

lemma from_enter:
  assumes "fine S c" "S i" "u < length (threads c)" "threads c ! u = Result_enter i Client"
    "expected (futs c) i \<noteq> None" "\<not> mutex (futs c ! i)"
  shows "returns c u i"
proof -
  note i = fine_bound [OF assms(1,2)]
  let ?y = "step c (Run u)"
  from assms(4) have r: "u < length (threads c) \<longrightarrow> \<not> registering (threads c ! u)"
    by (simp add: registering_def)
  from assms(3,4) have y: "u < length (threads ?y)"
    "threads ?y ! u = Result_start i Client \<or> threads ?y ! u = Result_wait i Client"
    by (simp_all add: set_pc_def)
  have e: "expected (futs ?y) i \<noteq> None"
    using expected_step [OF fine_own [OF assms(1)] i, of "Run u"] assms(5) by simp
  from lists_kept_step [OF r i] assms(6) have m: "\<not> mutex (futs ?y ! i)" by simp
  note g = fine_run [OF assms(1) r]
  from y(2) have "returns ?y u i"
  proof
    assume "threads ?y ! u = Result_start i Client"
    from from_start [OF g assms(2) y(1) this e m] show ?thesis .
  next
    assume "threads ?y ! u = Result_wait i Client"
    from from_wait [OF g assms(2) y(1) this e m] show ?thesis .
  qed
  from returns_step [OF this] show ?thesis .
qed

text \<open>Only the goroutine of a future closes its channel and moves its state out of Running.\<close>

lemma done_run:
  "t < length (threads c) \<Longrightarrow> threads c ! t = p \<Longrightarrow> i < length (futs c) \<Longrightarrow>
   done_ch (futs (run t p c) ! i) \<Longrightarrow> done_ch (futs c ! i) \<or> owner p = Some i"
  by (induction t p c rule: run.induct)
    (auto simp: run_defs nth_update_any nth_append
      split: task.splits option.splits prod.splits caller.splits if_splits)

lemma done_step:
  assumes "i < length (futs c)" "done_ch (futs (step c a) ! i)"
  shows "done_ch (futs c ! i) \<or> (\<exists>t < length (threads c). owner (threads c ! t) = Some i)"
proof (cases a)
  case (Run t)
  with assms done_run [of t c "threads c ! t" i] show ?thesis by (auto split: if_splits)
qed (use assms in \<open>auto simp: call_def spawn_def nth_append split: if_splits\<close>)

lemma Running_run:
  "t < length (threads c) \<Longrightarrow> threads c ! t = p \<Longrightarrow> i < length (futs c) \<Longrightarrow>
   state (futs c ! i) = Running \<Longrightarrow> state (futs (run t p c) ! i) \<noteq> Running \<Longrightarrow>
   \<exists>res er. p = Go_lock i res er"
  by (induction t p c rule: run.induct)
    (auto simp: run_defs nth_update_any nth_append
      split: task.splits option.splits prod.splits caller.splits if_splits)

lemma Running_step:
  assumes "i < length (futs c)" "state (futs c ! i) = Running" "state (futs (step c a) ! i) \<noteq> Running"
  shows "\<exists>t res er. a = Run t \<and> t < length (threads c) \<and> threads c ! t = Go_lock i res er"
proof (cases a)
  case (Run t)
  with assms Running_run [of t c "threads c ! t" i] show ?thesis by (auto split: if_splits)
qed (use assms in \<open>auto simp: call_def spawn_def nth_append split: if_splits\<close>)

lemma orphan_step:
  assumes "orphan c i"
  shows "orphan (step c a) i"
proof -
  from assms have i: "i < length (futs c)" and s: "state (futs c ! i) \<noteq> Pending"
    and d: "\<not> done_ch (futs c ! i)"
    and n: "\<And>t. t < length (threads c) \<Longrightarrow> owner (threads c ! t) \<noteq> Some i"
    by (auto simp: orphan_def list_all_length)
  have "owner (threads (step c a) ! u) \<noteq> Some i" if "u < length (threads (step c a))" for u
    using ph_step [OF s that] n by blast
  moreover from done_step [OF i] d n have "\<not> done_ch (futs (step c a) ! i)" by blast
  moreover from i length_futs_step [of c a] have "i < length (futs (step c a))" by simp
  ultimately show ?thesis using started_step [OF i s, of a] by (simp add: orphan_def list_all_length)
qed

lemma orphan_exec: "orphan c i \<Longrightarrow> orphan (exec c as) i"
  by (induction as rule: rev_induct) (simp_all add: orphan_step)

lemma wait_step:
  assumes "u < length (threads c)" "threads c ! u = Result_wait i w" "\<not> done_ch (futs c ! i)"
  shows "threads (step c a) ! u = Result_wait i w"
proof (cases "a = Run u")
  case True
  with assms show ?thesis by simp
next
  case False
  from other_thread_step [OF assms(1) False] assms(2) show ?thesis by simp
qed

lemma orphan_waits:
  assumes "orphan c i" "u < length (threads c)" "threads c ! u = Result_wait i w"
  shows "u < length (threads (exec c as)) \<and> threads (exec c as) ! u = Result_wait i w"
proof (induction as rule: rev_induct)
  case Nil
  from assms show ?case by simp
next
  case (snoc a as)
  from orphan_exec [OF assms(1), of as] have "\<not> done_ch (futs (exec c as) ! i)"
    by (simp add: orphan_def)
  from wait_step [OF _ _ this, of u w a] snoc length_threads_step [of "exec c as" a]
  show ?case by simp
qed

lemma closed_count: "count_list (trace (exec init as)) (Closed_done i) \<le> 1"
proof (cases "i < length (futs (exec init as))")
  case True
  show ?thesis
  proof (cases "done_ch (futs (exec init as) ! i)")
    case d: True
    from signalled [OF own_reach sound_reach True d] show ?thesis by simp
  next
    case False
    with sound_fut [OF sound_reach True] have "Closed_done i \<notin> set (trace (exec init as))"
      by (simp add: finv_def)
    then show ?thesis by (simp add: count_list_0_iff)
  qed
next
  case False
  have "\<forall>ev \<in> set (trace (exec init as)). subject ev \<noteq> i"
    using sound_reach [of as] False by (auto simp: sound_def)
  then have "Closed_done i \<notin> set (trace (exec init as))" by force
  then show ?thesis by (simp add: count_list_0_iff)
qed

section \<open>Result\<close>

lemma Result_autostart:
  assumes "c = exec init as" "u < length (threads c)" "threads c ! u = Result_enter i Client"
    "\<not> started (futs c ! i)"
  shows "started (futs (exec c [Run u, Run u]) ! i) \<and>
    state (futs (exec c [Run u, Run u]) ! i) = Running \<and>
    threads (exec c [Run u, Run u]) ! u = Result_wait i Client \<and>
    threads (exec c [Run u, Run u]) ! length (threads c) = Go_task i"
proof -
  have o: "own c" using assms(1) by (simp add: own_reach)
  from own_thread [OF o assms(2)] assms(3) have i: "i < length (futs c)"
    by (simp add: thread_ok_def)
  let ?y = "step c (Run u)"
  from assms(2,3,4) have y: "threads ?y = (threads c)[u := Result_start i Client]" "futs ?y = futs c"
    by (simp_all add: set_pc_def)
  have "?y = exec init (as @ [Run u])" using assms(1) by simp
  then have oy: "own ?y" and ly: "lock_ok ?y" by (simp_all only: own_reach lock_ok_reach)
  from y assms(2,4) i have h: "i < length (futs ?y)" "\<not> started (futs ?y ! i)"
    "u < length (threads ?y)" "threads ?y ! u = Result_start i Client"
    by simp_all
  have "exec c [Run u, Run u] = step ?y (Run u)" by (simp add: exec_def)
  with Start_starts [OF ly oy h(1,2,3), of "Result_wait i Client"] h(3,4) y(1) assms(2)
  show ?thesis by (simp add: nth_append)
qed

lemma Result_idempotent:
  assumes "c = exec init as" "u < length (threads c)" "threads c ! u = Result_done i v e"
    "u' < length (threads (exec c bs))" "threads (exec c bs) ! u' = Result_done i v' e'"
  shows "v' = v \<and> e' = e"
proof -
  have o: "own c" "sound c" using assms(1) by (simp_all add: own_reach sound_reach)
  have "exec c bs = exec init (as @ bs)" using assms(1) by (simp add: exec_append)
  then have o': "own (exec c bs)" "sound (exec c bs)" by (simp_all add: own_reach sound_reach)
  from Result_done_seen [OF o assms(2,3)]
  have a: "i < length (futs c)" "done_ch (futs c ! i)" "v = result (futs c ! i)" "e = err (futs c ! i)"
    by simp_all
  from Result_done_seen [OF o' assms(4,5)]
  have b: "v' = result (futs (exec c bs) ! i)" "e' = err (futs (exec c bs) ! i)" by simp_all
  from ext_exec [OF o(1) a(1), of bs] a b show ?thesis by (simp add: ext_def)
qed

lemma Result_outcome:
  assumes "own c" "sound c" "u < length (threads c)" "threads c ! u = Result_done i v e"
  shows "done_ch (futs c ! i) \<and> terminal (state (futs c ! i)) \<and>
    v = result (futs c ! i) \<and> e = err (futs c ! i) \<and>
    (e = None \<longleftrightarrow> state (futs c ! i) = Fulfilled) \<and>
    (\<exists>res. expected (futs c) i = Some (res, e) \<and> (e = None \<longrightarrow> v = res))"
proof -
  from Result_done_seen [OF assms]
  have a: "i < length (futs c)" "done_ch (futs c ! i)" "terminal (state (futs c ! i))"
    "v = result (futs c ! i)" "e = err (futs c ! i)"
    by simp_all
  from outcome [OF assms(1,2) a(1,3)] obtain res er where
    r: "expected (futs c) i = Some (res, er)"
      "case er of
         None \<Rightarrow> state (futs c ! i) = Fulfilled \<and> result (futs c ! i) = res \<and> err (futs c ! i) = None
       | Some x \<Rightarrow> state (futs c ! i) = Rejected \<and> err (futs c ! i) = Some x"
    by blast
  with a show ?thesis by (cases er) auto
qed

lemma Result_returns:
  assumes "c = exec init as" "u < length (threads c)" "threads c ! u = Result_enter i Client"
    "expected (futs c) i = Some (res, e)" "unhindered c i" "\<not> mutex (futs c ! i)"
  shows "\<exists>ts v. u < length (threads (exec c (map Run ts))) \<and>
    threads (exec c (map Run ts)) ! u = Result_done i v e \<and> (e = None \<longrightarrow> v = res)"
proof -
  have o: "own c" using assms(1) by (simp add: own_reach)
  from own_thread [OF o assms(2)] assms(3) have i: "i < length (futs c)"
    by (simp add: thread_ok_def)
  from from_enter [OF unhindered_fine [OF assms(1) i assms(5)] needs_self assms(2,3) _ assms(6)]
    assms(4)
  obtain ts v e' where
    ts: "u < length (threads (exec c (map Run ts)))"
      "threads (exec c (map Run ts)) ! u = Result_done i v e'"
    unfolding returns_def by auto
  let ?x = "exec c (map Run ts)"
  have "?x = exec init (as @ map Run ts)" using assms(1) by (simp add: exec_append)
  then have ox: "own ?x" "sound ?x" by (simp_all only: own_reach sound_reach)
  from Result_outcome [OF ox ts] expected_exec [OF o i, of "map Run ts"] assms(4)
  have "e' = e" "e = None \<longrightarrow> v = res" by auto
  with ts show ?thesis by blast
qed

text \<open>
  C4. In every reachable configuration \<open>c\<close>, for a call of \<open>Result\<close> on future \<open>i\<close> by client
  code in thread \<open>u\<close>:
  \<^item> if the future has not been started, the next two steps of the call start it: \<open>started\<close> is
    set, the state is Running, the goroutine for the task is spawned and the call waits for
    \<open>done\<close>;
  \<^item> while \<open>done\<close> is open the call does not move;
  \<^item> when the call has returned \<open>(v, e)\<close>, the channel is closed, the state is terminal,
    \<open>v\<close> and \<open>e\<close> are the fields \<open>result\<close> and \<open>err\<close>, the failure is nil exactly on Fulfilled,
    the pair is the outcome of the computation (the failure of it, and its value when there
    is no failure), and every return of \<open>Result\<close> on the same future, in this or any later
    configuration and in any thread, carries the same pair;
  \<^item> if the computation of the future returns \<open>(res, e)\<close>, started or not, and nothing stands
    in the way of its completion (the callbacks that will be fired for it, and for the
    ancestors whose result it still waits for, return, and no mutex among these is held by a
    callback that does not return), then some schedule of the threads makes the call return
    with failure \<open>e\<close>, and with value \<open>res\<close> when \<open>e\<close> is nil. What other futures and their
    callbacks do is of no concern.
\<close>

theorem Result_starts_waits_and_returns:
  assumes "c = exec init as" "u < length (threads c)"
  shows
    "(threads c ! u = Result_enter i Client \<longrightarrow> \<not> started (futs c ! i) \<longrightarrow>
        started (futs (exec c [Run u, Run u]) ! i) \<and>
        state (futs (exec c [Run u, Run u]) ! i) = Running \<and>
        threads (exec c [Run u, Run u]) ! u = Result_wait i Client \<and>
        threads (exec c [Run u, Run u]) ! length (threads c) = Go_task i) \<and>
     (threads c ! u = Result_wait i w \<longrightarrow> \<not> done_ch (futs c ! i) \<longrightarrow> step c (Run u) = c) \<and>
     (threads c ! u = Result_done i v e \<longrightarrow>
        done_ch (futs c ! i) \<and> terminal (state (futs c ! i)) \<and>
        v = result (futs c ! i) \<and> e = err (futs c ! i) \<and>
        (e = None \<longleftrightarrow> state (futs c ! i) = Fulfilled) \<and>
        (\<exists>res. expected (futs c) i = Some (res, e) \<and> (e = None \<longrightarrow> v = res)) \<and>
        (\<forall>bs u' v' e'. u' < length (threads (exec c bs)) \<longrightarrow>
           threads (exec c bs) ! u' = Result_done i v' e' \<longrightarrow> v' = v \<and> e' = e)) \<and>
     (threads c ! u = Result_enter i Client \<longrightarrow> expected (futs c) i = Some (res, e) \<longrightarrow>
      unhindered c i \<longrightarrow> \<not> mutex (futs c ! i) \<longrightarrow>
        (\<exists>ts v. u < length (threads (exec c (map Run ts))) \<and>
           threads (exec c (map Run ts)) ! u = Result_done i v e \<and> (e = None \<longrightarrow> v = res)))"
proof -
  have o: "own c" "sound c" using assms(1) by (simp_all add: own_reach sound_reach)
  have 1: "threads c ! u = Result_enter i Client \<longrightarrow> \<not> started (futs c ! i) \<longrightarrow>
        started (futs (exec c [Run u, Run u]) ! i) \<and>
        state (futs (exec c [Run u, Run u]) ! i) = Running \<and>
        threads (exec c [Run u, Run u]) ! u = Result_wait i Client \<and>
        threads (exec c [Run u, Run u]) ! length (threads c) = Go_task i"
    using Result_autostart [OF assms] by blast
  have 2: "threads c ! u = Result_wait i w \<longrightarrow> \<not> done_ch (futs c ! i) \<longrightarrow> step c (Run u) = c"
    using assms(2) by simp
  have 3: "threads c ! u = Result_done i v e \<longrightarrow>
        done_ch (futs c ! i) \<and> terminal (state (futs c ! i)) \<and>
        v = result (futs c ! i) \<and> e = err (futs c ! i) \<and>
        (e = None \<longleftrightarrow> state (futs c ! i) = Fulfilled) \<and>
        (\<exists>res. expected (futs c) i = Some (res, e) \<and> (e = None \<longrightarrow> v = res))"
    using Result_outcome [OF o assms(2)] by blast
  have 4: "threads c ! u = Result_done i v e \<longrightarrow>
        (\<forall>bs u' v' e'. u' < length (threads (exec c bs)) \<longrightarrow>
           threads (exec c bs) ! u' = Result_done i v' e' \<longrightarrow> v' = v \<and> e' = e)"
    using Result_idempotent [OF assms] by blast
  have 5: "threads c ! u = Result_enter i Client \<longrightarrow> expected (futs c) i = Some (res, e) \<longrightarrow>
      unhindered c i \<longrightarrow> \<not> mutex (futs c ! i) \<longrightarrow>
        (\<exists>ts v. u < length (threads (exec c (map Run ts))) \<and>
           threads (exec c (map Run ts)) ! u = Result_done i v e \<and> (e = None \<longrightarrow> v = res))"
    using Result_returns [OF assms] by blast
  from 1 2 3 4 5 show ?thesis by blast
qed

lemma never_started_eq:
  "never_started =
     \<lparr>futs = [\<lparr>task = Supplied (Some (Some 7, None)), mutex = False, result = None, err = None,
               state = Pending, done_ch = False, next_fut = None, onSuccess = [], onFailure = [],
               started = False\<rparr>],
      threads = [Result_enter 0 Client],
      trace = []\<rparr>"
  by (simp add: never_started_def exec_defs)

lemma first_Result_eq:
  "first_Result =
     \<lparr>futs = [\<lparr>task = Supplied (Some (Some 7, None)), mutex = False, result = Some 7, err = None,
               state = Fulfilled, done_ch = True, next_fut = None, onSuccess = [], onFailure = [],
               started = True\<rparr>],
      threads = [Result_done 0 (Some 7) None, Go_done 0],
      trace = [Invoked_task 0, Closed_done 0]\<rparr>"
  by (simp add: first_Result_def exec_defs)

lemma second_Result_eq:
  "threads second_Result = [Result_done 0 (Some 7) None, Go_done 0, Result_done 0 (Some 7) None]"
  by (simp add: second_Result_def first_Result_eq exec_defs)

lemma other_hangs_eq:
  "other_hangs =
     \<lparr>futs = [\<lparr>task = Supplied (Some (Some 1, None)), mutex = False, result = Some 1, err = None,
               state = Fulfilled, done_ch = False, next_fut = None, onSuccess = [Cb 0 False],
               onFailure = [], started = True\<rparr>,
              \<lparr>task = Supplied (Some (Some 7, None)), mutex = False, result = None, err = None,
               state = Pending, done_ch = False, next_fut = None, onSuccess = [], onFailure = [],
               started = False\<rparr>],
      threads = [OnSuccess_done 0 (Cb 0 False), Start_done 0, Hung, Result_enter 1 Client],
      trace = [Invoked_task 0, Fired_success 0 (Cb 0 False) (Some 1)]\<rparr>"
  by (simp add: other_hangs_def exec_defs)

lemma child_Result_eq:
  "child_Result =
     \<lparr>futs = [\<lparr>task = Supplied (Some (Some 1, None)), mutex = False, result = None, err = None,
               state = Pending, done_ch = False, next_fut = Some 1, onSuccess = [], onFailure = [],
               started = False\<rparr>,
              \<lparr>task = Closure 0 (\<lambda>res. Some (res, None)), mutex = False, result = None, err = None,
               state = Pending, done_ch = False, next_fut = None, onSuccess = [], onFailure = [],
               started = False\<rparr>],
      threads = [Then_done 0 1, Start_enter 0, Result_enter 1 Client],
      trace = []\<rparr>"
  by (simp add: child_Result_def exec_defs)

lemma never_started_ready:
  "expected (futs never_started) 0 = Some (Some 7, None)" "unhindered never_started 0"
  by (simp_all add: never_started_eq expected.simps [of _ 0] unhindered_def needs.simps [of _ 0]
      matching_def)

lemma other_hangs_ready:
  "expected (futs other_hangs) (Suc 0) = Some (Some 7, None)" "unhindered other_hangs (Suc 0)"
  by (simp_all add: other_hangs_eq expected.simps [of _ "Suc 0"] unhindered_def
      needs.simps [of _ "Suc 0"] matching_def)

lemma child_Result_ready:
  "expected (futs child_Result) (Suc 0) = Some (Some 1, None)" "unhindered child_Result (Suc 0)"
  by (simp_all add: child_Result_eq expected.simps [of _ "Suc 0"] expected.simps [of _ 0]
      unhindered_def needs.simps [of _ "Suc 0"] needs.simps [of _ 0] matching_def waits_def)

theorem Result_starts_waits_and_returns_witness:
  "threads never_started = [Result_enter 0 Client] \<and> \<not> started (futs never_started ! 0) \<and>
   started (futs (exec never_started [Run 0, Run 0]) ! 0) \<and>
   state (futs (exec never_started [Run 0, Run 0]) ! 0) = Running \<and>
   threads (exec never_started [Run 0, Run 0]) ! 0 = Result_wait 0 Client \<and>
   threads (exec never_started [Run 0, Run 0]) ! 1 = Go_task 0 \<and>
   (\<exists>ts. threads (exec never_started (map Run ts)) ! 0 = Result_done 0 (Some 7) None) \<and>
   threads first_Result ! 0 = Result_done 0 (Some 7) None \<and>
   done_ch (futs first_Result ! 0) \<and> state (futs first_Result ! 0) = Fulfilled \<and>
   expected (futs first_Result) 0 = Some (Some 7, None) \<and>
   threads second_Result ! 2 = Result_done 0 (Some 7) None \<and>
   threads other_hangs = [OnSuccess_done 0 (Cb 0 False), Start_done 0, Hung, Result_enter 1 Client] \<and>
   (\<exists>ts. threads (exec other_hangs (map Run ts)) ! 3 = Result_done 1 (Some 7) None) \<and>
   threads child_Result = [Then_done 0 1, Start_enter 0, Result_enter 1 Client] \<and>
   (\<exists>ts. threads (exec child_Result (map Run ts)) ! 2 = Result_done 1 (Some 1) None)"
proof -
  have n: "0 < length (threads never_started)" "threads never_started ! 0 = Result_enter 0 Client"
    "\<not> started (futs never_started ! 0)" "length (threads never_started) = 1"
    "\<not> mutex (futs never_started ! 0)"
    by (simp_all add: never_started_eq)
  from Result_starts_waits_and_returns [OF never_started_def n(1),
      where i = 0 and res = "Some 7" and e = None]
    n never_started_ready
  have a: "started (futs (exec never_started [Run 0, Run 0]) ! 0)"
    "state (futs (exec never_started [Run 0, Run 0]) ! 0) = Running"
    "threads (exec never_started [Run 0, Run 0]) ! 0 = Result_wait 0 Client"
    "threads (exec never_started [Run 0, Run 0]) ! 1 = Go_task 0"
    "\<exists>ts. threads (exec never_started (map Run ts)) ! 0 = Result_done 0 (Some 7) None"
    by auto
  have f: "0 < length (threads first_Result)" "threads first_Result ! 0 = Result_done 0 (Some 7) None"
    by (simp_all add: first_Result_eq)
  from Result_starts_waits_and_returns [OF first_Result_def f(1),
      where i = 0 and v = "Some 7" and e = None] f(2)
  have b: "done_ch (futs first_Result ! 0)" "state (futs first_Result ! 0) = Fulfilled"
    "\<exists>res. expected (futs first_Result) 0 = Some (res, None) \<and> Some 7 = res"
    by auto
  have h: "3 < length (threads other_hangs)" "threads other_hangs ! 3 = Result_enter (Suc 0) Client"
    "\<not> mutex (futs other_hangs ! Suc 0)"
    "threads other_hangs = [OnSuccess_done 0 (Cb 0 False), Start_done 0, Hung, Result_enter 1 Client]"
    by (simp_all add: other_hangs_eq)
  from Result_starts_waits_and_returns [OF other_hangs_def h(1),
      where i = "Suc 0" and res = "Some 7" and e = None]
    h other_hangs_ready
  have c: "\<exists>ts. threads (exec other_hangs (map Run ts)) ! 3 = Result_done 1 (Some 7) None"
    by auto
  have k: "2 < length (threads child_Result)" "threads child_Result ! 2 = Result_enter (Suc 0) Client"
    "\<not> mutex (futs child_Result ! Suc 0)"
    "threads child_Result = [Then_done 0 1, Start_enter 0, Result_enter 1 Client]"
    by (simp_all add: child_Result_eq)
  from Result_starts_waits_and_returns [OF child_Result_def k(1),
      where i = "Suc 0" and res = "Some 1" and e = None]
    k child_Result_ready
  have d: "\<exists>ts. threads (exec child_Result (map Run ts)) ! 2 = Result_done 1 (Some 1) None"
    by auto
  have "threads second_Result ! 2 = Result_done 0 (Some 7) None"
    "threads never_started = [Result_enter 0 Client]"
    by (simp_all add: second_Result_eq never_started_eq)
  with n a f b c d h(4) k(4) show ?thesis by auto
qed

lemma callback_hangs_eq:
  "callback_hangs =
     \<lparr>futs = [\<lparr>task = Supplied (Some (Some 42, None)), mutex = False, result = Some 42, err = None,
               state = Fulfilled, done_ch = False, next_fut = None, onSuccess = [Cb 0 False],
               onFailure = [], started = True\<rparr>],
      threads = [OnSuccess_done 0 (Cb 0 False), Start_done 0, Hung, Result_wait 0 Client],
      trace = [Invoked_task 0, Fired_success 0 (Cb 0 False) (Some 42)]\<rparr>"
  by (simp add: callback_hangs_def exec_defs)

lemma callback_hangs_orphan: "orphan callback_hangs 0"
  by (simp add: callback_hangs_eq orphan_def)

lemma open_not_closed:
  assumes "c = exec init as" "i < length (futs c)" "\<not> done_ch (futs c ! i)"
  shows "count_list (trace c) (Closed_done i) = 0"
proof -
  from sound_fut [OF sound_reach, of i as] assms have "Closed_done i \<notin> set (trace c)"
    by (simp add: finv_def)
  then show ?thesis by (simp add: count_list_0_iff)
qed

text \<open>
  C10, as stated, fails where a callback does not return. The future below is started and
  its task returns \<open>42\<close>; the goroutine has fulfilled it and is inside the callback, before
  the close. Whatever happens afterwards, \<open>done\<close> stays open, it has been closed zero times,
  and the call of \<open>Result\<close> in thread 3 is still waiting.
\<close>

theorem hanging_callback_keeps_done_open:
  "started (futs callback_hangs ! 0) \<and>
   task (futs callback_hangs ! 0) = Supplied (Some (Some 42, None)) \<and>
   expected (futs callback_hangs) 0 = Some (Some 42, None) \<and>
   state (futs callback_hangs ! 0) = Fulfilled \<and>
   trace callback_hangs = [Invoked_task 0, Fired_success 0 (Cb 0 False) (Some 42)] \<and>
   threads callback_hangs = [OnSuccess_done 0 (Cb 0 False), Start_done 0, Hung, Result_wait 0 Client] \<and>
   blocks_forever callback_hangs 3 0"
proof -
  have 1: "started (futs callback_hangs ! 0)"
    "task (futs callback_hangs ! 0) = Supplied (Some (Some 42, None))"
    "expected (futs callback_hangs) 0 = Some (Some 42, None)"
    "state (futs callback_hangs ! 0) = Fulfilled"
    "trace callback_hangs = [Invoked_task 0, Fired_success 0 (Cb 0 False) (Some 42)]"
    "threads callback_hangs = [OnSuccess_done 0 (Cb 0 False), Start_done 0, Hung, Result_wait 0 Client]"
    by (simp_all add: callback_hangs_eq expected.simps [of _ 0])
  have w: "3 < length (threads callback_hangs)" "threads callback_hangs ! 3 = Result_wait 0 Client"
    by (simp_all add: callback_hangs_eq)
  have 2: "\<not> done_ch (futs (exec callback_hangs bs) ! 0) \<and>
      count_list (trace (exec callback_hangs bs)) (Closed_done 0) = 0 \<and>
      3 < length (threads (exec callback_hangs bs)) \<and>
      threads (exec callback_hangs bs) ! 3 = Result_wait 0 Client" for bs
  proof -
    from orphan_exec [OF callback_hangs_orphan, of bs]
    have o: "0 < length (futs (exec callback_hangs bs))" "\<not> done_ch (futs (exec callback_hangs bs) ! 0)"
      by (simp_all add: orphan_def)
    have "exec callback_hangs bs =
      exec init ([Call_NewFuture None (Some (Some 42, None)), Call_OnSuccess 0 (Cb 0 False), Run 0,
        Call_Start 0, Run 1, Run 2, Run 2, Run 2, Call_Result 0, Run 3] @ bs)"
      unfolding callback_hangs_def exec_append ..
    from open_not_closed [OF this o]
    have "count_list (trace (exec callback_hangs bs)) (Closed_done 0) = 0" .
    with o(2) orphan_waits [OF callback_hangs_orphan w, of bs] show ?thesis by simp
  qed
  then have "blocks_forever callback_hangs 3 0" unfolding blocks_forever_def by blast
  with 1 show ?thesis by simp
qed

lemma only_goroutine:
  assumes "own c" "t < length (threads c)" "threads c ! t = Go_lock i res er"
  shows "state (futs c ! i) = Running \<and>
    (\<forall>s < length (threads c). owner (threads c ! s) = Some i \<longrightarrow> s = t)"
proof -
  from own_thread [OF assms(1,2)] assms(3) have "state (futs c ! i) = Running"
    by (simp add: thread_ok_def)
  moreover from assms have "\<forall>s < length (threads c). owner (threads c ! s) = Some i \<longrightarrow> s = t"
    unfolding own_def uniq_def by (metis owner.simps(2))
  ultimately show ?thesis by simp
qed

lemma never_fails:
  assumes "own c" "t < length (threads c)"
  shows "threads c ! t \<noteq> Go_abort i \<and> threads c ! t \<noteq> Panicked i"
  using own_thread [OF assms] by (auto simp: thread_ok_def)

lemma closes:
  assumes "c = exec init as" "i < length (futs c)" "started (futs c ! i)"
    "expected (futs c) i \<noteq> None" "unhindered c i"
  shows "\<exists>ts. done_ch (futs (exec c (map Run ts)) ! i) \<and>
    count_list (trace (exec c (map Run ts))) (Closed_done i) = 1"
proof -
  have o: "own c" using assms(1) by (simp add: own_reach)
  from own_fut [OF o assms(2)] assms(3) have "state (futs c ! i) \<noteq> Pending"
    by (simp add: fut_ok_def)
  from drive [OF unhindered_fine [OF assms(1,2,5)] needs_self this assms(4)] obtain ts where
    ts: "done_ch (futs (exec c (map Run ts)) ! i)"
    unfolding reaches_def by blast
  have r: "exec c (map Run ts) = exec init (as @ map Run ts)"
    using assms(1) by (simp add: exec_append)
  from assms(2) length_futs_exec [of c "map Run ts"] have "i < length (futs (exec c (map Run ts)))"
    by simp
  from signalled [OF _ _ this ts] r
  have "count_list (trace (exec c (map Run ts))) (Closed_done i) = 1"
    by (simp add: own_reach sound_reach)
  with ts show ?thesis by blast
qed

lemma waiting_returns:
  assumes "c = exec init as" "i < length (futs c)" "unhindered c i" "u < length (threads c)"
    "threads c ! u = Result_enter i Client \<or> threads c ! u = Result_wait i Client"
    "expected (futs c) i \<noteq> None" "\<not> mutex (futs c ! i)"
  shows "\<exists>ts v e. threads (exec c (map Run ts)) ! u = Result_done i v e"
proof -
  note g = unhindered_fine [OF assms(1,2,3)]
  from assms(5) have "returns c u i"
  proof
    assume "threads c ! u = Result_enter i Client"
    from from_enter [OF g needs_self assms(4) this assms(6,7)] show ?thesis .
  next
    assume "threads c ! u = Result_wait i Client"
    from from_wait [OF g needs_self assms(4) this assms(6,7)] show ?thesis .
  qed
  then show ?thesis unfolding returns_def by blast
qed

text \<open>
  C10, with the callbacks taken into account. In every reachable configuration \<open>c\<close>:
  \<^item> no thread is in the defensive branch of the goroutine (\<open>Go_abort\<close>), and none has
    panicked on a second close;
  \<^item> a goroutine that is about to take the mutex for the completion finds the state Running,
    and it is the only goroutine of its future;
  \<^item> a step that moves a future out of Running is the locked step of that goroutine;
  \<^item> \<open>done\<close> has been closed at most once, and exactly once if it is closed;
  \<^item> for a started future whose computation returns and for which every callback that is
    invoked returns (the callbacks that will be fired for it, and for the ancestors whose
    result it still waits for, return, and no mutex of such an ancestor is held by a callback
    that does not return), some schedule of the goroutines closes \<open>done\<close>, exactly once; and if
    its own mutex is not held by such a callback either, some schedule lets a call of \<open>Result\<close>
    by client code return. What other futures and their callbacks do is of no concern.
\<close>

theorem done_is_closed_once_when_callbacks_return:
  assumes "c = exec init as"
  shows
    "(t < length (threads c) \<longrightarrow>
        threads c ! t \<noteq> Go_abort i \<and> threads c ! t \<noteq> Panicked i \<and>
        (threads c ! t = Go_lock i res er \<longrightarrow>
           state (futs c ! i) = Running \<and>
           (\<forall>s < length (threads c). owner (threads c ! s) = Some i \<longrightarrow> s = t))) \<and>
     (i < length (futs c) \<longrightarrow> state (futs c ! i) = Running \<longrightarrow>
      state (futs (step c a) ! i) \<noteq> Running \<longrightarrow>
        (\<exists>s res' er'. a = Run s \<and> s < length (threads c) \<and> threads c ! s = Go_lock i res' er')) \<and>
     count_list (trace c) (Closed_done i) \<le> 1 \<and>
     (i < length (futs c) \<longrightarrow> done_ch (futs c ! i) \<longrightarrow> count_list (trace c) (Closed_done i) = 1) \<and>
     (i < length (futs c) \<longrightarrow> started (futs c ! i) \<longrightarrow> expected (futs c) i \<noteq> None \<longrightarrow>
      unhindered c i \<longrightarrow>
        (\<exists>ts. done_ch (futs (exec c (map Run ts)) ! i) \<and>
           count_list (trace (exec c (map Run ts))) (Closed_done i) = 1) \<and>
        (u < length (threads c) \<longrightarrow>
         threads c ! u = Result_enter i Client \<or> threads c ! u = Result_wait i Client \<longrightarrow>
         \<not> mutex (futs c ! i) \<longrightarrow>
           (\<exists>ts v e. threads (exec c (map Run ts)) ! u = Result_done i v e)))"
proof -
  have o: "own c" "sound c" using assms by (simp_all add: own_reach sound_reach)
  have 1: "t < length (threads c) \<longrightarrow>
        threads c ! t \<noteq> Go_abort i \<and> threads c ! t \<noteq> Panicked i \<and>
        (threads c ! t = Go_lock i res er \<longrightarrow>
           state (futs c ! i) = Running \<and>
           (\<forall>s < length (threads c). owner (threads c ! s) = Some i \<longrightarrow> s = t))"
    using never_fails [OF o(1), of t i] only_goroutine [OF o(1), of t i res er] by blast
  have 2: "i < length (futs c) \<longrightarrow> state (futs c ! i) = Running \<longrightarrow>
      state (futs (step c a) ! i) \<noteq> Running \<longrightarrow>
        (\<exists>s res' er'. a = Run s \<and> s < length (threads c) \<and> threads c ! s = Go_lock i res' er')"
    using Running_step [of i c a] by blast
  have 3: "count_list (trace c) (Closed_done i) \<le> 1"
    using closed_count [of as i] assms by simp
  have 4: "i < length (futs c) \<longrightarrow> done_ch (futs c ! i) \<longrightarrow>
      count_list (trace c) (Closed_done i) = 1"
    using signalled [OF o, of i] by blast
  have 5: "i < length (futs c) \<longrightarrow> started (futs c ! i) \<longrightarrow> expected (futs c) i \<noteq> None \<longrightarrow>
      unhindered c i \<longrightarrow>
        (\<exists>ts. done_ch (futs (exec c (map Run ts)) ! i) \<and>
           count_list (trace (exec c (map Run ts))) (Closed_done i) = 1)"
    using closes [OF assms] by blast
  have 6: "i < length (futs c) \<longrightarrow> expected (futs c) i \<noteq> None \<longrightarrow> unhindered c i \<longrightarrow>
        u < length (threads c) \<longrightarrow>
        threads c ! u = Result_enter i Client \<or> threads c ! u = Result_wait i Client \<longrightarrow>
        \<not> mutex (futs c ! i) \<longrightarrow>
           (\<exists>ts v e. threads (exec c (map Run ts)) ! u = Result_done i v e)"
    using waiting_returns [OF assms, of i u] by blast
  from 1 2 3 4 5 6 show ?thesis by blast
qed

lemma about_to_complete_eq:
  "about_to_complete =
     \<lparr>futs = [\<lparr>task = Supplied (Some (Some 42, None)), mutex = False, result = None, err = None,
               state = Running, done_ch = False, next_fut = None, onSuccess = [], onFailure = [],
               started = True\<rparr>],
      threads = [Start_done 0, Go_lock 0 (Some 42) None, Result_wait 0 Client],
      trace = [Invoked_task 0]\<rparr>"
  by (simp add: about_to_complete_def exec_defs)

lemma waiting_child_eq:
  "waiting_child =
     \<lparr>futs = [\<lparr>task = Supplied (Some (Some 1, None)), mutex = False, result = None, err = None,
               state = Running, done_ch = False, next_fut = Some 1, onSuccess = [],
               onFailure = [Cb 0 False], started = True\<rparr>,
              \<lparr>task = Closure 0 (\<lambda>res. Some (res, None)), mutex = False, result = None, err = None,
               state = Running, done_ch = False, next_fut = None, onSuccess = [], onFailure = [],
               started = True\<rparr>],
      threads = [Then_done 0 1, Start_done 0, Go_task 0, OnFailure_done 0 (Cb 0 False), Start_done 1,
                 Result_wait 0 (Link 1 (\<lambda>res. Some (res, None)))],
      trace = [Invoked_task 1]\<rparr>"
  by (simp add: waiting_child_def exec_defs)

theorem done_is_closed_once_when_callbacks_return_witness:
  "threads about_to_complete = [Start_done 0, Go_lock 0 (Some 42) None, Result_wait 0 Client] \<and>
   state (futs about_to_complete ! 0) = Running \<and>
   state (futs (step about_to_complete (Run 1)) ! 0) = Fulfilled \<and>
   started (futs about_to_complete ! 0) \<and>
   expected (futs about_to_complete) 0 = Some (Some 42, None) \<and>
   count_list (trace about_to_complete) (Closed_done 0) \<le> 1 \<and>
   (\<exists>ts. done_ch (futs (exec about_to_complete (map Run ts)) ! 0) \<and>
      count_list (trace (exec about_to_complete (map Run ts))) (Closed_done 0) = 1) \<and>
   (\<exists>ts v e. threads (exec about_to_complete (map Run ts)) ! 2 = Result_done 0 v e) \<and>
   onFailure (futs waiting_child ! 0) = [Cb 0 False] \<and>
   threads waiting_child ! 5 = Result_wait 0 (Link 1 (\<lambda>res. Some (res, None))) \<and>
   (\<exists>ts. done_ch (futs (exec waiting_child (map Run ts)) ! 1) \<and>
      count_list (trace (exec waiting_child (map Run ts))) (Closed_done 1) = 1)"
proof -
  have h: "threads about_to_complete = [Start_done 0, Go_lock 0 (Some 42) None, Result_wait 0 Client]"
    "state (futs about_to_complete ! 0) = Running"
    "state (futs (step about_to_complete (Run 1)) ! 0) = Fulfilled"
    "started (futs about_to_complete ! 0)"
    "expected (futs about_to_complete) 0 = Some (Some 42, None)"
    "0 < length (futs about_to_complete)" "2 < length (threads about_to_complete)"
    "threads about_to_complete ! 2 = Result_wait 0 Client"
    "\<not> mutex (futs about_to_complete ! 0)"
    by (simp_all add: about_to_complete_eq expected.simps [of _ 0] complete_def set_pc_def
        set_fut_def Let_def)
  have r: "unhindered about_to_complete 0"
    by (simp add: about_to_complete_eq unhindered_def needs.simps [of _ 0] matching_def
        expected.simps [of _ 0])
  from done_is_closed_once_when_callbacks_return [OF about_to_complete_def,
      where i = 0 and u = 2] r h
  have a: "count_list (trace about_to_complete) (Closed_done 0) \<le> 1"
    "\<exists>ts. done_ch (futs (exec about_to_complete (map Run ts)) ! 0) \<and>
      count_list (trace (exec about_to_complete (map Run ts))) (Closed_done 0) = 1"
    "\<exists>ts v e. threads (exec about_to_complete (map Run ts)) ! 2 = Result_done 0 v e"
    by simp_all
  have k: "Suc 0 < length (futs waiting_child)" "started (futs waiting_child ! Suc 0)"
    "expected (futs waiting_child) (Suc 0) = Some (Some 1, None)"
    "onFailure (futs waiting_child ! 0) = [Cb 0 False]"
    "threads waiting_child ! 5 = Result_wait 0 (Link 1 (\<lambda>res. Some (res, None)))"
    by (simp_all add: waiting_child_eq expected.simps [of _ "Suc 0"] expected.simps [of _ 0])
  have q: "unhindered waiting_child (Suc 0)"
    by (simp add: waiting_child_eq unhindered_def needs.simps [of _ "Suc 0"] needs.simps [of _ 0]
        matching_def waits_def ph_def expected.simps [of _ "Suc 0"] expected.simps [of _ 0])
  from done_is_closed_once_when_callbacks_return [OF waiting_child_def, where i = "Suc 0"] q k
  have b: "\<exists>ts. done_ch (futs (exec waiting_child (map Run ts)) ! 1) \<and>
      count_list (trace (exec waiting_child (map Run ts))) (Closed_done 1) = 1"
    by simp
  from h a k b show ?thesis by simp
qed

end
